theory Spec2Isabelle
  imports Complex_Main "HOL-Library.Word"
begin

unbundle bit_operations_syntax

section \<open>JavaScript values and primitives used by ProofPath.js\<close>

text \<open>
  A \<open>Uint8Array\<close> is a list of 8-bit words. Numbers that the source uses as lengths and
  positions are integers. \<open>undefined\<close> is \<open>None\<close>; the number \<open>NaN\<close> has a
  constructor of its own. The two \<open>TypeError\<close>s of the source are told apart by the
  place that throws them: \<open>InvalidInput\<close> is thrown by the constructor,
  \<open>InvalidOperation\<close> by \<open>truncate\<close>; \<open>InvariantBroken\<close> is the \<open>Error\<close> of
  \<open>trimZeros\<close>.
\<close>

type_synonym byte = "8 word"

datatype error = InvalidInput | InvalidOperation | InvariantBroken

datatype js_value = JSString string | JSUint8Array "byte list" | JSOther

datatype js_number = Num int | NaN

text \<open>\<open>x >> n\<close>: the operand is first wrapped to a signed 32-bit integer.\<close>

definition toInt32 :: "int \<Rightarrow> int" where
  "toInt32 x = (x + 2 ^ 31) mod 2 ^ 32 - 2 ^ 31"

definition js_sar :: "int \<Rightarrow> nat \<Rightarrow> int" where
  "js_sar x n = toInt32 x div 2 ^ n"

text \<open>\<open>a % b\<close>: the remainder takes the sign of the dividend.\<close>

definition js_rem :: "int \<Rightarrow> int \<Rightarrow> int" where
  "js_rem a b = sgn a * (\<bar>a\<bar> mod \<bar>b\<bar>)"

text \<open>
  Reading a typed array outside its range gives \<open>undefined\<close>; writing outside its
  range is ignored.
\<close>

definition typed_get :: "byte list \<Rightarrow> int \<Rightarrow> byte option" where
  "typed_get buffer i = (if 0 \<le> i \<and> i < int (length buffer) then Some (buffer ! nat i) else None)"

definition typed_set :: "byte list \<Rightarrow> int \<Rightarrow> byte \<Rightarrow> byte list" where
  "typed_set buffer i v = (if 0 \<le> i \<and> i < int (length buffer) then buffer[nat i := v] else buffer)"

text \<open>\<open>a - b\<close> on the results of \<open>bit\<close>: \<open>undefined\<close> turns the difference into \<open>NaN\<close>.\<close>

fun js_minus :: "int option \<Rightarrow> int option \<Rightarrow> js_number" where
  "js_minus (Some x) (Some y) = Num (x - y)"
| "js_minus _ _ = NaN"

section \<open>The conversion helpers of \<open>../types/convert\<close>\<close>

text \<open>
  Modelled from the spec: \<open>binaryStringToUint8Array\<close> of \<open>src/types/convert.js\<close>, which
  is imported by ProofPath.js and is not among the sources. The spec fixes it on strings of
  \<open>'0'\<close>/\<open>'1'\<close> characters: the padded string is converted "to a 32-byte buffer" (4.1),
  with "bit 0 at index 0 mapped to the LSB" (8, scenario 4: \<open>"1010101"\<close> gives the payload
  byte \<open>0b01010101\<close>), so character \<open>8 * j + k\<close> is bit \<open>k\<close> of byte \<open>j\<close>. A string with
  any other character is not a valid bit-string and is rejected with \<open>InvalidInput\<close> (7).
\<close>

fun chop8 :: "'a list \<Rightarrow> 'a list list" where
  "chop8 [] = []"
| "chop8 (x # xs) = take 8 (x # xs) # chop8 (drop 8 (x # xs))"

definition bitsToByte :: "string \<Rightarrow> byte" where
  "bitsToByte cs = horner_sum of_bool 2 (map (\<lambda>c. c = CHR ''1'') cs)"

definition binaryStringToUint8Array :: "string \<Rightarrow> error + byte list" where
  "binaryStringToUint8Array binaryStr =
     (if list_all (\<lambda>c. c = CHR ''0'' \<or> c = CHR ''1'') binaryStr
      then Inr (map bitsToByte (chop8 binaryStr))
      else Inl InvalidInput)"

text \<open>
  Modelled from the spec: \<open>uint8ArrayToHexadecimal\<close> of \<open>src/types/convert.js\<close>, not among
  the sources. The spec calls its result "a hexadecimal string view of \<open>key\<close>" (3): two
  hexadecimal digits for each byte, the high nibble first.
\<close>

definition hexDigit :: "nat \<Rightarrow> char" where
  "hexDigit n = ''0123456789abcdef'' ! n"

definition uint8ArrayToHexadecimal :: "byte list \<Rightarrow> string" where
  "uint8ArrayToHexadecimal uint8arr =
     concat (map (\<lambda>b. [hexDigit (unat b div 16), hexDigit (unat b mod 16)]) uint8arr)"




section \<open>ProofPath\<close>

definition BIT_LENGTH :: int where
  "BIT_LENGTH = 256"

record proof_path =
  key :: "byte list"
  bitLength :: int
  hexKey :: string

text \<open>\<open>ZEROS\<close> doubles the string \<open>"0"\<close> eight times.\<close>

definition ZEROS :: string where
  "ZEROS = ((\<lambda>str. str @ str) ^^ 8) ''0''"

text \<open>\<open>substring(0, n)\<close> clamps \<open>n\<close> to the range of the string.\<close>

definition padWithZeros :: "string \<Rightarrow> int \<Rightarrow> string" where
  "padWithZeros str desiredLength = str @ take (nat (desiredLength - int (length str))) ZEROS"


text \<open>
  The constructor. The second argument is \<open>None\<close> when the caller leaves it out (it then
  defaults to \<open>BIT_LENGTH\<close>); for a string it is overwritten by the string's length.
\<close>

definition new_ProofPath :: "js_value \<Rightarrow> int option \<Rightarrow> error + proof_path" where
  "new_ProofPath bits len =
     (case bits of
        JSString s \<Rightarrow>
          (case binaryStringToUint8Array (padWithZeros s BIT_LENGTH) of
             Inl e \<Rightarrow> Inl e
           | Inr k \<Rightarrow> Inr \<lparr>key = k, bitLength = int (length s),
                           hexKey = uint8ArrayToHexadecimal k\<rparr>)
      | JSUint8Array b \<Rightarrow>
          if int (length b) = BIT_LENGTH div 8
          then Inr \<lparr>key = b, bitLength = (case len of None \<Rightarrow> BIT_LENGTH | Some n \<Rightarrow> n),
                    hexKey = uint8ArrayToHexadecimal b\<rparr>
          else Inl InvalidInput
      | JSOther \<Rightarrow> Inl InvalidInput)"

definition isTerminal :: "proof_path \<Rightarrow> bool" where
  "isTerminal this = (bitLength this = BIT_LENGTH)"

text \<open>
  \<open>getBit\<close>: \<open>(buffer[byte] & (1 << bitPos)) >> bitPos\<close>. A byte outside the buffer is
  \<open>undefined\<close>, which \<open>&\<close> reads as 0. Inside the buffer \<open>pos\<close> is not negative and
  \<open>bitPos\<close> lies between 0 and 7.
\<close>

definition getBit :: "byte list \<Rightarrow> int \<Rightarrow> int" where
  "getBit buffer pos =
     (let byte = pos div 8; bitPos = js_rem pos 8 in
      case typed_get buffer byte of
        None \<Rightarrow> 0
      | Some b \<Rightarrow> drop_bit (nat bitPos) (uint b AND push_bit (nat bitPos) 1))"

text \<open>
  \<open>setBit\<close>: \<open>buffer[byte] &= 255 - (1 << bitPos)\<close> when the bit is 0, otherwise
  \<open>buffer[byte] |= (1 << bitPos)\<close>. A write outside the buffer is ignored.
\<close>

definition setBit :: "byte list \<Rightarrow> int \<Rightarrow> int option \<Rightarrow> byte list" where
  "setBit buffer pos b =
     (let byte = pos div 8; bitPos = js_rem pos 8 in
      case typed_get buffer byte of
        None \<Rightarrow> buffer
      | Some old \<Rightarrow>
          if b = Some 0 then typed_set buffer byte (old AND (255 - push_bit (nat bitPos) 1))
          else typed_set buffer byte (old OR push_bit (nat bitPos) 1))"

text \<open>The method \<open>bit\<close>; \<open>None\<close> is \<open>undefined\<close>.\<close>

definition bit_at :: "proof_path \<Rightarrow> int \<Rightarrow> int option" where
  "bit_at this pos =
     (if pos \<ge> bitLength this \<or> pos < 0 then None else Some (getBit (key this) pos))"

text \<open>
  The first loop of \<open>commonPrefixLength\<close>:
  \<open>for (pos = 0; pos < intersectingBits >> 3 && this.key[pos >> 3] === other.key[pos >> 3]; pos += 8)\<close>.
\<close>

function advanceBytes :: "proof_path \<Rightarrow> proof_path \<Rightarrow> int \<Rightarrow> int \<Rightarrow> int" where
  "advanceBytes this other intersectingBits pos =
     (if pos < js_sar intersectingBits 3 \<and>
         typed_get (key this) (js_sar pos 3) = typed_get (key other) (js_sar pos 3)
      then advanceBytes this other intersectingBits (pos + 8)
      else pos)"
  by pat_completeness auto
termination
  by (relation "measure (\<lambda>(this, other, intersectingBits, pos). nat (js_sar intersectingBits 3 - pos))")
    auto

declare advanceBytes.simps [simp del]

text \<open>
  The second loop:
  \<open>for (; pos < intersectingBits && this.bit(pos) === other.bit(pos); pos++)\<close>.
\<close>

function checkBits :: "proof_path \<Rightarrow> proof_path \<Rightarrow> int \<Rightarrow> int \<Rightarrow> int" where
  "checkBits this other intersectingBits pos =
     (if pos < intersectingBits \<and> bit_at this pos = bit_at other pos
      then checkBits this other intersectingBits (pos + 1)
      else pos)"
  by pat_completeness auto
termination
  by (relation "measure (\<lambda>(this, other, intersectingBits, pos). nat (intersectingBits - pos))")
    auto

declare checkBits.simps [simp del]

definition commonPrefixLength :: "proof_path \<Rightarrow> proof_path \<Rightarrow> int" where
  "commonPrefixLength this other =
     (let intersectingBits = min (bitLength this) (bitLength other);
          pos = advanceBytes this other intersectingBits 0
      in checkBits this other intersectingBits pos)"

definition startsWith :: "proof_path \<Rightarrow> proof_path \<Rightarrow> bool" where
  "startsWith this other = (commonPrefixLength this other = bitLength other)"

definition compare :: "proof_path \<Rightarrow> proof_path \<Rightarrow> js_number" where
  "compare this other =
     (let thisLen = bitLength this; otherLen = bitLength other;
          intersectingBits = min thisLen otherLen;
          pos = commonPrefixLength this other
      in if pos = intersectingBits then Num (sgn (thisLen - otherLen))
         else js_minus (bit_at this pos) (bit_at other pos))"

text \<open>
  The loops of \<open>truncate\<close>: \<open>for (i = 0; i < bits >> 3; i++) bytes[i] = this.key[i]\<close>
  (an \<open>undefined\<close> source byte is stored as 0) and
  \<open>for (bit = 8 * (bits >> 3); bit < bits; bit++) setBit(bytes, bit, this.bit(bit))\<close>.
\<close>

function copyBytes :: "proof_path \<Rightarrow> byte list \<Rightarrow> int \<Rightarrow> int \<Rightarrow> byte list" where
  "copyBytes this bytes i n =
     (if i < n
      then copyBytes this
             (typed_set bytes i (case typed_get (key this) i of Some b \<Rightarrow> b | None \<Rightarrow> 0))
             (i + 1) n
      else bytes)"
  by pat_completeness auto
termination
  by (relation "measure (\<lambda>(this, bytes, i, n). nat (n - i))") auto

declare copyBytes.simps [simp del]

function copyBits :: "proof_path \<Rightarrow> byte list \<Rightarrow> int \<Rightarrow> int \<Rightarrow> byte list" where
  "copyBits this bytes b bits =
     (if b < bits
      then copyBits this (setBit bytes b (bit_at this b)) (b + 1) bits
      else bytes)"
  by pat_completeness auto
termination
  by (relation "measure (\<lambda>(this, bytes, b, bits). nat (bits - b))") auto

declare copyBits.simps [simp del]

definition truncate :: "proof_path \<Rightarrow> int \<Rightarrow> error + proof_path" where
  "truncate this bits =
     (if bits > bitLength this then Inl InvalidOperation
      else
        let bytes0 = replicate (nat (BIT_LENGTH div 8)) (0 :: byte);
            bytes1 = copyBytes this bytes0 0 (js_sar bits 3);
            bytes2 = copyBits this bytes1 (8 * js_sar bits 3) bits
        in new_ProofPath (JSUint8Array bytes2) (Some bits))"

definition commonPrefix :: "proof_path \<Rightarrow> proof_path \<Rightarrow> error + proof_path" where
  "commonPrefix this other = truncate this (commonPrefixLength this other)"

text \<open>
  \<open>serialize\<close> pushes numbers onto a JavaScript array; an element is \<open>None\<close> when the
  pushed value is \<open>undefined\<close> (a key byte outside the key).
\<close>

function pushKeyBytes :: "proof_path \<Rightarrow> int option list \<Rightarrow> int \<Rightarrow> int option list" where
  "pushKeyBytes this buffer pos =
     (if pos < js_sar (bitLength this + 7) 3
      then pushKeyBytes this (buffer @ [map_option uint (typed_get (key this) pos)]) (pos + 1)
      else buffer)"
  by pat_completeness auto
termination
  by (relation "measure (\<lambda>(this, buffer, pos). nat (js_sar (bitLength this + 7) 3 - pos))") auto

declare pushKeyBytes.simps [simp del]

definition serialize :: "proof_path \<Rightarrow> int option list \<Rightarrow> int option list" where
  "serialize this buffer =
     (let buffer1 =
            (if bitLength this < 128 then buffer @ [Some (bitLength this)]
             else buffer @ [Some (128 + js_rem (bitLength this) 128), Some (js_sar (bitLength this) 7)])
      in pushKeyBytes this buffer1 0)"


section \<open>The data model of the specification\<close>

text \<open>
  The bounds of the data model: a key of exactly 32 bytes and a length between 0 and 256.
  The zero padding of the key beyond the length is a separate predicate; \<open>key_bit k i\<close> is
  bit \<open>i\<close> of the key \<open>k\<close>, bit 0 being the least significant bit of byte 0.
\<close>

definition valid_path :: "proof_path \<Rightarrow> bool" where
  "valid_path p = (length (key p) = 32 \<and> 0 \<le> bitLength p \<and> bitLength p \<le> 256)"

definition key_bit :: "byte list \<Rightarrow> nat \<Rightarrow> bool" where
  "key_bit k i = (i div 8 < length k \<and> bit (k ! (i div 8)) (i mod 8))"

definition zero_padded :: "proof_path \<Rightarrow> bool" where
  "zero_padded p = list_all (\<lambda>i. int i < bitLength p \<or> \<not> key_bit (key p) i) [0 ..< 8 * length (key p)]"

text \<open>
  The semantic definition of the common prefix length in the specification (4.3): a scan
  bit by bit from position 0, which "returns the position of first mismatch (or the
  intersection bound if no mismatch)".
\<close>

definition firstMismatch :: "proof_path \<Rightarrow> proof_path \<Rightarrow> int" where
  "firstMismatch a b =
     (let m = min (bitLength a) (bitLength b) in
      case find (\<lambda>i. bit_at a (int i) \<noteq> bit_at b (int i)) [0 ..< nat m] of
        None \<Rightarrow> m
      | Some i \<Rightarrow> int i)"

text \<open>
  The tests \<open>x < 0\<close>, \<open>x == 0\<close> and \<open>x > 0\<close> on a JavaScript number: each of them is
  false on \<open>NaN\<close>.
\<close>

fun is_negative :: "js_number \<Rightarrow> bool" where
  "is_negative (Num r) = (r < 0)"
| "is_negative NaN = False"

fun is_zero :: "js_number \<Rightarrow> bool" where
  "is_zero (Num r) = (r = 0)"
| "is_zero NaN = False"

fun is_positive :: "js_number \<Rightarrow> bool" where
  "is_positive (Num r) = (r > 0)"
| "is_positive NaN = False"

section \<open>Arithmetic and bit access\<close>

lemma js_sar_small: "- (2 ^ 31) \<le> x \<Longrightarrow> x < 2 ^ 31 \<Longrightarrow> js_sar x n = x div 2 ^ n"
  by (simp add: js_sar_def toInt32_def)

lemma js_rem_nonneg: "0 \<le> a \<Longrightarrow> 0 < b \<Longrightarrow> js_rem a b = a mod b"
  by (cases "a = 0") (simp_all add: js_rem_def)

lemma single_bit_int: "drop_bit n ((x :: int) AND push_bit n 1) = of_bool (bit x n)"
  by (rule bit_eqI) (auto simp: bit_simps)

lemma typed_get_nat: "typed_get k (int j) = (if j < length k then Some (k ! j) else None)"
  by (simp add: typed_get_def)

lemma getBit_key_bit: "0 \<le> pos \<Longrightarrow> getBit k pos = of_bool (key_bit k (nat pos))"
proof -
  assume pos: "0 \<le> pos"
  have d: "pos div 8 = int (nat pos div 8)" and m: "nat (pos mod 8) = nat pos mod 8"
    using pos by (simp_all add: zdiv_int nat_mod_distrib)
  have "getBit k pos =
      (case typed_get k (int (nat pos div 8)) of None \<Rightarrow> 0
       | Some b \<Rightarrow> of_bool (bit (uint b) (nat pos mod 8)))"
    unfolding getBit_def Let_def js_rem_nonneg[OF pos, of 8, simplified] d m single_bit_int ..
  then show ?thesis
    by (simp add: typed_get_nat key_bit_def bit_uint_iff)
qed

lemma bit_at_None_iff: "bit_at p pos = None \<longleftrightarrow> pos < 0 \<or> pos \<ge> bitLength p"
  by (auto simp: bit_at_def)

lemma bit_at_in_range:
  "0 \<le> pos \<Longrightarrow> pos < bitLength p \<Longrightarrow> bit_at p pos = Some (of_bool (key_bit (key p) (nat pos)))"
  by (simp add: bit_at_def getBit_key_bit)

section \<open>Bit access (claim C8)\<close>

text \<open>
  C8. For a path within the bounds of the data model, \<open>bit\<close> returns \<open>undefined\<close> exactly
  when the position is negative or not below \<open>bitLength\<close>; otherwise it returns, as 0 or
  1, the bit of byte \<open>floor (pos / 8)\<close> of the key at offset \<open>pos mod 8\<close>, offset 0 being
  the least significant bit. The path built from \<open>"110"\<close> has length 3, bits 1, 1, 0 at
  positions 0, 1, 2 and \<open>undefined\<close> at position 3.
\<close>

theorem bit_at_spec:
  assumes "valid_path p"
  shows "(bit_at p pos = None \<longleftrightarrow> pos < 0 \<or> pos \<ge> bitLength p) \<and>
         (0 \<le> pos \<and> pos < bitLength p \<longrightarrow>
            bit_at p pos = Some (if bit (key p ! nat (pos div 8)) (nat (pos mod 8)) then 1 else 0)) \<and>
         (case new_ProofPath (JSString ''110'') None of
            Inl e \<Rightarrow> False
          | Inr q \<Rightarrow> bitLength q = 3 \<and> bit_at q 0 = Some 1 \<and> bit_at q 1 = Some 1 \<and>
                     bit_at q 2 = Some 0 \<and> bit_at q 3 = None)"
proof (intro conjI impI)
  show "bit_at p pos = None \<longleftrightarrow> pos < 0 \<or> pos \<ge> bitLength p"
    by (rule bit_at_None_iff)
next
  assume r: "0 \<le> pos \<and> pos < bitLength p"
  then have "nat pos div 8 < length (key p)"
    using assms by (simp add: valid_path_def) linarith
  moreover have "nat (pos div 8) = nat pos div 8" "nat (pos mod 8) = nat pos mod 8"
    using r by (simp_all add: nat_div_distrib nat_mod_distrib)
  ultimately show "bit_at p pos = Some (if bit (key p ! nat (pos div 8)) (nat (pos mod 8)) then 1 else 0)"
    using r by (simp add: bit_at_in_range key_bit_def)
next
  show "case new_ProofPath (JSString ''110'') None of
            Inl e \<Rightarrow> False
          | Inr q \<Rightarrow> bitLength q = 3 \<and> bit_at q 0 = Some 1 \<and> bit_at q 1 = Some 1 \<and>
                     bit_at q 2 = Some 0 \<and> bit_at q 3 = None"
    by code_simp
qed

theorem bit_at_spec_witness:
  "valid_path \<lparr>key = 5 # replicate 31 0, bitLength = 3, hexKey = []\<rparr> \<and>
   bit_at \<lparr>key = 5 # replicate 31 0, bitLength = 3, hexKey = []\<rparr> 2 = Some 1 \<and>
   bit_at \<lparr>key = 5 # replicate 31 0, bitLength = 3, hexKey = []\<rparr> 1 = Some 0 \<and>
   bit_at \<lparr>key = 5 # replicate 31 0, bitLength = 3, hexKey = []\<rparr> 3 = None"
proof -
  let ?p = "\<lparr>key = 5 # replicate 31 0, bitLength = 3, hexKey = []\<rparr>"
  have v: "valid_path ?p" by (simp add: valid_path_def)
  from bit_at_spec[OF v, of 2] bit_at_spec[OF v, of 1] bit_at_spec[OF v, of 3]
  show ?thesis using v by simp
qed

section \<open>The common prefix length\<close>

lemma toInt32_le: "0 \<le> x \<Longrightarrow> toInt32 x \<le> x"
proof -
  assume "0 \<le> x"
  have "(x + 2 ^ 31) mod 2 ^ 32 \<le> x + 2 ^ 31"
    by (rule zmod_le_nonneg_dividend) (use \<open>0 \<le> x\<close> in simp)
  then show ?thesis by (simp add: toInt32_def)
qed

lemma toInt32_less: "toInt32 x < 2147483648"
  by (simp add: toInt32_def)

lemma advance_step:
  assumes "0 \<le> m" "0 \<le> pos" "pos < js_sar m 3"
  shows "pos + 8 \<le> m" "js_sar pos 3 = pos div 8"
proof -
  have c: "pos < toInt32 m div 8" using assms(3) by (simp add: js_sar_def)
  have t: "toInt32 m \<le> m" using assms(1) by (rule toInt32_le)
  have t2: "toInt32 m < 2147483648" by (rule toInt32_less)
  show "pos + 8 \<le> m" using c t assms(2) by linarith
  have small: "pos < 2147483648" using c t2 by linarith
  show "js_sar pos 3 = pos div 8"
    using assms(2) small by (simp add: js_sar_small)
qed

lemma same_byte: "pos mod 8 = 0 \<Longrightarrow> pos \<le> i \<Longrightarrow> i < pos + 8 \<Longrightarrow> i div 8 = pos div (8::int)"
proof -
  assume a: "pos mod 8 = 0" "pos \<le> i" "i < pos + 8"
  obtain q where q: "pos = 8 * q" using a(1) by (metis mod_eq_0_iff_dvd dvd_def)
  have "8 * q \<le> i" "i < 8 * q + 8" using a q by auto
  then have "i div 8 = q" by linarith
  then show ?thesis using q by simp
qed

lemma getBit_cong:
  "typed_get ka (pos div 8) = typed_get kb (pos div 8) \<Longrightarrow> getBit ka pos = getBit kb pos"
  by (simp add: getBit_def Let_def)

lemma advanceBytes_spec:
  assumes "0 \<le> m" "0 \<le> pos" "pos mod 8 = 0" "pos \<le> m"
    and "\<forall>i. 0 \<le> i \<and> i < pos \<longrightarrow> getBit (key a) i = getBit (key b) i"
  shows "0 \<le> advanceBytes a b m pos \<and> advanceBytes a b m pos \<le> m \<and>
         (\<forall>i. 0 \<le> i \<and> i < advanceBytes a b m pos \<longrightarrow> getBit (key a) i = getBit (key b) i)"
  using assms
proof (induction a b m pos rule: advanceBytes.induct)
  case (1 this other m pos)
  show ?case
  proof (cases "pos < js_sar m 3 \<and>
         typed_get (key this) (js_sar pos 3) = typed_get (key other) (js_sar pos 3)")
    case True
    have eq: "advanceBytes this other m pos = advanceBytes this other m (pos + 8)"
      using True by (subst advanceBytes.simps) simp
    have lt: "pos < js_sar m 3" using True by simp
    note st = advance_step[OF "1.prems"(1) "1.prems"(2) lt]
    have bytes: "typed_get (key this) (pos div 8) = typed_get (key other) (pos div 8)"
      using True st(2) by simp
    have bits: "\<forall>i. 0 \<le> i \<and> i < pos + 8 \<longrightarrow> getBit (key this) i = getBit (key other) i"
    proof (intro allI impI)
      fix i :: int assume i: "0 \<le> i \<and> i < pos + 8"
      show "getBit (key this) i = getBit (key other) i"
      proof (cases "i < pos")
        case True
        then show ?thesis using "1.prems"(5) i by blast
      next
        case False
        then have "i div 8 = pos div 8" using i "1.prems"(3) by (intro same_byte) simp_all
        then have "typed_get (key this) (i div 8) = typed_get (key other) (i div 8)"
          using bytes by simp
        then show ?thesis by (rule getBit_cong)
      qed
    qed
    have p1: "0 \<le> pos + 8" using "1.prems"(2) by simp
    have p2: "(pos + 8) mod 8 = 0" using "1.prems"(3) by simp
    have "0 \<le> advanceBytes this other m (pos + 8) \<and> advanceBytes this other m (pos + 8) \<le> m \<and>
         (\<forall>i. 0 \<le> i \<and> i < advanceBytes this other m (pos + 8) \<longrightarrow> getBit (key this) i = getBit (key other) i)"
      by (rule "1.IH"[OF True "1.prems"(1) p1 p2 st(1) bits])
    then show ?thesis unfolding eq .
  next
    case False
    have eq: "advanceBytes this other m pos = pos"
      using False by (subst advanceBytes.simps) auto
    show ?thesis unfolding eq using "1.prems"(2,4,5) by blast
  qed
qed

lemma checkBits_spec:
  "pos \<le> checkBits a b m pos \<and>
   (pos \<le> m \<longrightarrow> checkBits a b m pos \<le> m) \<and>
   (\<forall>i. pos \<le> i \<and> i < checkBits a b m pos \<longrightarrow> bit_at a i = bit_at b i) \<and>
   (checkBits a b m pos < m \<longrightarrow> bit_at a (checkBits a b m pos) \<noteq> bit_at b (checkBits a b m pos))"
proof (induction a b m pos rule: checkBits.induct)
  case (1 this other m pos)
  show ?case
  proof (cases "pos < m \<and> bit_at this pos = bit_at other pos")
    case True
    then have eq: "checkBits this other m pos = checkBits this other m (pos + 1)"
      by (subst checkBits.simps) simp
    have ih: "pos + 1 \<le> checkBits this other m (pos + 1) \<and>
      (pos + 1 \<le> m \<longrightarrow> checkBits this other m (pos + 1) \<le> m) \<and>
      (\<forall>i. pos + 1 \<le> i \<and> i < checkBits this other m (pos + 1) \<longrightarrow> bit_at this i = bit_at other i) \<and>
      (checkBits this other m (pos + 1) < m \<longrightarrow>
        bit_at this (checkBits this other m (pos + 1)) \<noteq> bit_at other (checkBits this other m (pos + 1)))"
      using 1 True by blast
    have "\<And>i. pos \<le> i \<Longrightarrow> i < checkBits this other m (pos + 1) \<Longrightarrow> bit_at this i = bit_at other i"
    proof -
      fix i assume "pos \<le> i" "i < checkBits this other m (pos + 1)"
      then show "bit_at this i = bit_at other i"
        using ih True by (cases "i = pos") auto
    qed
    then show ?thesis unfolding eq using ih True by auto
  next
    case False
    then have eq: "checkBits this other m pos = pos"
      by (subst checkBits.simps) auto
    show ?thesis unfolding eq using False by auto
  qed
qed

lemma commonPrefixLength_spec:
  assumes "0 \<le> bitLength a" "0 \<le> bitLength b"
  shows "0 \<le> commonPrefixLength a b"
    and "commonPrefixLength a b \<le> min (bitLength a) (bitLength b)"
    and "\<forall>i. 0 \<le> i \<and> i < commonPrefixLength a b \<longrightarrow> bit_at a i = bit_at b i"
    and "commonPrefixLength a b < min (bitLength a) (bitLength b) \<longrightarrow>
           bit_at a (commonPrefixLength a b) \<noteq> bit_at b (commonPrefixLength a b)"
proof -
  define m where "m = min (bitLength a) (bitLength b)"
  define p0 where "p0 = advanceBytes a b m 0"
  have m0: "0 \<le> m" using assms by (simp add: m_def)
  have adv: "0 \<le> p0 \<and> p0 \<le> m \<and> (\<forall>i. 0 \<le> i \<and> i < p0 \<longrightarrow> getBit (key a) i = getBit (key b) i)"
    unfolding p0_def by (rule advanceBytes_spec[OF m0]) (use m0 in simp_all)
  have r: "commonPrefixLength a b = checkBits a b m p0"
    by (simp add: commonPrefixLength_def Let_def m_def p0_def)
  note cb = checkBits_spec[of p0 a b m]
  have low: "\<And>i. 0 \<le> i \<Longrightarrow> i < p0 \<Longrightarrow> bit_at a i = bit_at b i"
  proof -
    fix i assume i: "0 \<le> i" "i < p0"
    then have "i < bitLength a" "i < bitLength b" using adv by (simp_all add: m_def)
    then show "bit_at a i = bit_at b i" using i adv by (simp add: bit_at_def)
  qed
  show "0 \<le> commonPrefixLength a b" unfolding r using cb adv by linarith
  show "commonPrefixLength a b \<le> min (bitLength a) (bitLength b)"
    unfolding r m_def[symmetric] using cb adv by blast
  show "\<forall>i. 0 \<le> i \<and> i < commonPrefixLength a b \<longrightarrow> bit_at a i = bit_at b i"
  proof (intro allI impI)
    fix i assume i: "0 \<le> i \<and> i < commonPrefixLength a b"
    show "bit_at a i = bit_at b i"
    proof (cases "i < p0")
      case True
      then show ?thesis using low i by blast
    next
      case False
      then have "p0 \<le> i \<and> i < checkBits a b m p0" using i r by simp
      then show ?thesis using cb by blast
    qed
  qed
  show "commonPrefixLength a b < min (bitLength a) (bitLength b) \<longrightarrow>
           bit_at a (commonPrefixLength a b) \<noteq> bit_at b (commonPrefixLength a b)"
    unfolding r m_def[symmetric] using cb by blast
qed

text \<open>A position with the four properties above is unique.\<close>

lemma first_mismatch_unique:
  fixes r r' m :: int
  assumes "r \<le> m" "\<forall>i. 0 \<le> i \<and> i < r \<longrightarrow> f i = g i" "r < m \<longrightarrow> f r \<noteq> g r" "0 \<le> r"
    and "r' \<le> m" "\<forall>i. 0 \<le> i \<and> i < r' \<longrightarrow> f i = g i" "r' < m \<longrightarrow> f r' \<noteq> g r'" "0 \<le> r'"
  shows "r = r'"
proof (rule ccontr)
  assume "r \<noteq> r'"
  then consider "r < r'" | "r' < r" by linarith
  then show False
  proof cases
    case 1
    then have "r < m" "f r = g r" using assms by auto
    then show False using assms(3) by blast
  next
    case 2
    then have "r' < m" "f r' = g r'" using assms by auto
    then show False using assms(7) by blast
  qed
qed

lemma firstMismatch_spec:
  assumes "0 \<le> bitLength a" "0 \<le> bitLength b"
  shows "0 \<le> firstMismatch a b"
    and "firstMismatch a b \<le> min (bitLength a) (bitLength b)"
    and "\<forall>i. 0 \<le> i \<and> i < firstMismatch a b \<longrightarrow> bit_at a i = bit_at b i"
    and "firstMismatch a b < min (bitLength a) (bitLength b) \<longrightarrow>
           bit_at a (firstMismatch a b) \<noteq> bit_at b (firstMismatch a b)"
proof -
  define m where "m = min (bitLength a) (bitLength b)"
  have m0: "0 \<le> m" using assms by (simp add: m_def)
  let ?P = "\<lambda>i. bit_at a (int i) \<noteq> bit_at b (int i)"
  show "0 \<le> firstMismatch a b"
    using m0 by (simp add: firstMismatch_def Let_def m_def[symmetric] split: option.split)
  show "firstMismatch a b \<le> min (bitLength a) (bitLength b)"
    using m0 by (auto simp add: firstMismatch_def Let_def m_def[symmetric] find_Some_iff split: option.split)
  show "\<forall>i. 0 \<le> i \<and> i < firstMismatch a b \<longrightarrow> bit_at a i = bit_at b i"
  proof (intro allI impI)
    fix i assume i: "0 \<le> i \<and> i < firstMismatch a b"
    show "bit_at a i = bit_at b i"
    proof (cases "find ?P [0 ..< nat m]")
      case None
      then have fm: "firstMismatch a b = m" by (simp add: firstMismatch_def Let_def m_def)
      have "nat i \<in> set [0 ..< nat m]" using i fm by simp
      then have "\<not> ?P (nat i)" using None unfolding find_None_iff by blast
      then show ?thesis using i by simp
    next
      case (Some j)
      then have fm: "firstMismatch a b = int j" by (simp add: firstMismatch_def Let_def m_def)
      obtain k where k: "k < length [0 ..< nat m]" "[0 ..< nat m] ! k = j"
          "\<forall>l < k. \<not> ?P ([0 ..< nat m] ! l)"
        using Some unfolding find_Some_iff by blast
      have kj: "k = j" using k(1,2) by simp
      have "nat i < k" using i fm kj by linarith
      then have "\<not> ?P ([0 ..< nat m] ! nat i)" using k(3) by blast
      moreover have "k < nat m" using k(1) by simp
      then have "nat i < nat m" using \<open>nat i < k\<close> by (rule less_trans[rotated])
      then have "[0 ..< nat m] ! nat i = nat i" by simp
      ultimately show ?thesis using i by simp
    qed
  qed
  show "firstMismatch a b < min (bitLength a) (bitLength b) \<longrightarrow>
           bit_at a (firstMismatch a b) \<noteq> bit_at b (firstMismatch a b)"
  proof (cases "find ?P [0 ..< nat m]")
    case None
    then show ?thesis by (simp add: firstMismatch_def Let_def m_def)
  next
    case (Some j)
    then have fm: "firstMismatch a b = int j" by (simp add: firstMismatch_def Let_def m_def)
    have "?P j" using Some unfolding find_Some_iff by auto
    then show ?thesis unfolding fm by simp
  qed
qed

section \<open>The two-phase scan against the bit-by-bit scan (claim C4)\<close>

text \<open>
  C4. For two paths whose lengths are not negative, the two-phase \<open>commonPrefixLength\<close>
  (whole bytes first, then single bits) returns what the bit-by-bit scan of the
  specification returns, and what its own second phase returns when started at position 0:
  the largest \<open>k\<close> not above the smaller length such that the two paths agree on every
  bit below \<open>k\<close>, that is the position of the first mismatch, or the smaller length when
  there is none.
\<close>

theorem commonPrefixLength_is_bit_scan:
  assumes "0 \<le> bitLength a" "0 \<le> bitLength b"
  shows "commonPrefixLength a b = firstMismatch a b \<and>
         commonPrefixLength a b = checkBits a b (min (bitLength a) (bitLength b)) 0 \<and>
         0 \<le> commonPrefixLength a b \<and>
         commonPrefixLength a b \<le> min (bitLength a) (bitLength b) \<and>
         (\<forall>i. 0 \<le> i \<and> i < commonPrefixLength a b \<longrightarrow> bit_at a i = bit_at b i) \<and>
         (\<forall>k. k \<le> min (bitLength a) (bitLength b) \<and>
               (\<forall>i. 0 \<le> i \<and> i < k \<longrightarrow> bit_at a i = bit_at b i) \<longrightarrow>
               k \<le> commonPrefixLength a b)"
proof -
  let ?m = "min (bitLength a) (bitLength b)"
  let ?r = "commonPrefixLength a b"
  note c = commonPrefixLength_spec[OF assms]
  note f = firstMismatch_spec[OF assms]
  have m0: "0 \<le> ?m" using assms by simp
  note s = checkBits_spec[of 0 a b ?m]
  have e1: "?r = firstMismatch a b"
    by (rule first_mismatch_unique[OF c(2) c(3) c(4) c(1) f(2) f(3) f(4) f(1)])
  have e2: "?r = checkBits a b ?m 0"
    by (rule first_mismatch_unique[where m = ?m and f = "bit_at a" and g = "bit_at b"])
       (use c s m0 in auto)
  have largest: "\<forall>k. k \<le> ?m \<and> (\<forall>i. 0 \<le> i \<and> i < k \<longrightarrow> bit_at a i = bit_at b i) \<longrightarrow> k \<le> ?r"
  proof (intro allI impI)
    fix k assume k: "k \<le> ?m \<and> (\<forall>i. 0 \<le> i \<and> i < k \<longrightarrow> bit_at a i = bit_at b i)"
    show "k \<le> ?r"
    proof (rule ccontr)
      assume "\<not> k \<le> ?r"
      then have "?r < k" by simp
      then have "?r < ?m" "bit_at a ?r = bit_at b ?r" using k c(1) by auto
      then show False using c(4) by blast
    qed
  qed
  show ?thesis using e1 e2 c(1,2,3) largest by blast
qed

theorem commonPrefixLength_is_bit_scan_witness:
  "0 \<le> bitLength \<lparr>key = 255 # 15 # replicate 30 0, bitLength = 200, hexKey = []\<rparr> \<and>
   0 \<le> bitLength \<lparr>key = 255 # 47 # replicate 30 0, bitLength = 256, hexKey = []\<rparr> \<and>
   commonPrefixLength \<lparr>key = 255 # 15 # replicate 30 0, bitLength = 200, hexKey = []\<rparr>
     \<lparr>key = 255 # 47 # replicate 30 0, bitLength = 256, hexKey = []\<rparr> = 13"
proof -
  let ?a = "\<lparr>key = 255 # 15 # replicate 30 0, bitLength = 200, hexKey = []\<rparr>"
  let ?b = "\<lparr>key = 255 # 47 # replicate 30 0, bitLength = 256, hexKey = []\<rparr>"
  have a: "0 \<le> bitLength ?a" and b: "0 \<le> bitLength ?b" by simp_all
  have "firstMismatch ?a ?b = 13" by code_simp
  then show ?thesis using commonPrefixLength_is_bit_scan[OF a b] by simp
qed

section \<open>Comparison\<close>

lemma bit_at_cases:
  "0 \<le> pos \<Longrightarrow> pos < bitLength p \<Longrightarrow> bit_at p pos = Some 0 \<or> bit_at p pos = Some 1"
  by (simp add: bit_at_in_range)

lemma compare_at_bound:
  "commonPrefixLength a b = min (bitLength a) (bitLength b) \<Longrightarrow>
   compare a b = Num (sgn (bitLength a - bitLength b))"
  by (simp add: compare_def Let_def)

lemma compare_at_mismatch:
  "commonPrefixLength a b \<noteq> min (bitLength a) (bitLength b) \<Longrightarrow>
   compare a b = js_minus (bit_at a (commonPrefixLength a b)) (bit_at b (commonPrefixLength a b))"
  by (simp add: compare_def Let_def)

lemma mismatch_bits:
  assumes "0 \<le> bitLength a" "0 \<le> bitLength b"
    and "commonPrefixLength a b \<noteq> min (bitLength a) (bitLength b)"
  shows "(bit_at a (commonPrefixLength a b) = Some 0 \<and> bit_at b (commonPrefixLength a b) = Some 1) \<or>
         (bit_at a (commonPrefixLength a b) = Some 1 \<and> bit_at b (commonPrefixLength a b) = Some 0)"
proof -
  let ?r = "commonPrefixLength a b"
  note c = commonPrefixLength_spec[OF assms(1,2)]
  have lt: "?r < min (bitLength a) (bitLength b)" using c(2) assms(3) by linarith
  then have ne: "bit_at a ?r \<noteq> bit_at b ?r" using c(4) by blast
  have "bit_at a ?r = Some 0 \<or> bit_at a ?r = Some 1"
    using lt c(1) by (intro bit_at_cases) simp_all
  moreover have "bit_at b ?r = Some 0 \<or> bit_at b ?r = Some 1"
    using lt c(1) by (intro bit_at_cases) simp_all
  ultimately show ?thesis using ne by auto
qed

subsection \<open>The two cases of \<open>compare\<close> (claim C3)\<close>

text \<open>
  C3. For two paths whose lengths are not negative, with \<open>pos\<close> their common prefix
  length: when \<open>pos\<close> is the smaller of the two lengths, \<open>compare\<close> is the sign of the
  difference of the lengths; otherwise \<open>compare\<close> is negative exactly when the first path
  has bit 0 and the second has bit 1 at \<open>pos\<close>, positive exactly in the opposite case,
  and one of the two cases holds.
\<close>

theorem compare_spec:
  assumes "0 \<le> bitLength a" "0 \<le> bitLength b"
  shows "(commonPrefixLength a b = min (bitLength a) (bitLength b) \<longrightarrow>
            compare a b = Num (sgn (bitLength a - bitLength b))) \<and>
         (commonPrefixLength a b \<noteq> min (bitLength a) (bitLength b) \<longrightarrow>
            (is_negative (compare a b) \<longleftrightarrow>
               bit_at a (commonPrefixLength a b) = Some 0 \<and> bit_at b (commonPrefixLength a b) = Some 1) \<and>
            (is_positive (compare a b) \<longleftrightarrow>
               bit_at a (commonPrefixLength a b) = Some 1 \<and> bit_at b (commonPrefixLength a b) = Some 0) \<and>
            (is_negative (compare a b) \<or> is_positive (compare a b)))"
proof (intro conjI impI)
  assume "commonPrefixLength a b = min (bitLength a) (bitLength b)"
  then show "compare a b = Num (sgn (bitLength a - bitLength b))" by (rule compare_at_bound)
next
  assume ne: "commonPrefixLength a b \<noteq> min (bitLength a) (bitLength b)"
  note m = mismatch_bits[OF assms ne] and c = compare_at_mismatch[OF ne]
  show "is_negative (compare a b) \<longleftrightarrow>
          bit_at a (commonPrefixLength a b) = Some 0 \<and> bit_at b (commonPrefixLength a b) = Some 1"
    using m unfolding c by auto
  show "is_positive (compare a b) \<longleftrightarrow>
          bit_at a (commonPrefixLength a b) = Some 1 \<and> bit_at b (commonPrefixLength a b) = Some 0"
    using m unfolding c by auto
  show "is_negative (compare a b) \<or> is_positive (compare a b)"
    using m unfolding c by auto
qed

theorem compare_spec_witness:
  "0 \<le> bitLength \<lparr>key = 1 # replicate 31 0, bitLength = 2, hexKey = []\<rparr> \<and>
   0 \<le> bitLength \<lparr>key = 3 # replicate 31 0, bitLength = 2, hexKey = []\<rparr> \<and>
   commonPrefixLength \<lparr>key = 1 # replicate 31 0, bitLength = 2, hexKey = []\<rparr>
     \<lparr>key = 3 # replicate 31 0, bitLength = 2, hexKey = []\<rparr> = 1 \<and>
   is_negative (compare \<lparr>key = 1 # replicate 31 0, bitLength = 2, hexKey = []\<rparr>
     \<lparr>key = 3 # replicate 31 0, bitLength = 2, hexKey = []\<rparr>) \<and>
   commonPrefixLength \<lparr>key = 1 # replicate 31 0, bitLength = 2, hexKey = []\<rparr>
     \<lparr>key = 1 # replicate 31 0, bitLength = 1, hexKey = []\<rparr> = 1 \<and>
   compare \<lparr>key = 1 # replicate 31 0, bitLength = 2, hexKey = []\<rparr>
     \<lparr>key = 1 # replicate 31 0, bitLength = 1, hexKey = []\<rparr> = Num 1"
proof -
  let ?a = "\<lparr>key = 1 # replicate 31 0, bitLength = 2, hexKey = []\<rparr>"
  let ?b = "\<lparr>key = 3 # replicate 31 0, bitLength = 2, hexKey = []\<rparr>"
  let ?c = "\<lparr>key = 1 # replicate 31 0, bitLength = 1, hexKey = []\<rparr>"
  have a: "0 \<le> bitLength ?a" and b: "0 \<le> bitLength ?b" and c: "0 \<le> bitLength ?c" by simp_all
  have p1: "commonPrefixLength ?a ?b = 1" by code_simp
  have p2: "commonPrefixLength ?a ?c = 1" by code_simp
  have b0: "bit_at ?a 1 = Some 0" and b1: "bit_at ?b 1 = Some 1" by code_simp+
  show ?thesis
    using compare_spec[OF a b] compare_spec[OF a c] p1 p2 b0 b1 by simp
qed

subsection \<open>Symmetry, reflexivity and transitivity\<close>

lemma commonPrefixLength_eqI:
  assumes "0 \<le> bitLength a" "0 \<le> bitLength b"
    and "0 \<le> k" "k \<le> min (bitLength a) (bitLength b)"
    and "\<forall>i. 0 \<le> i \<and> i < k \<longrightarrow> bit_at a i = bit_at b i"
    and "k < min (bitLength a) (bitLength b) \<longrightarrow> bit_at a k \<noteq> bit_at b k"
  shows "commonPrefixLength a b = k"
proof -
  note c = commonPrefixLength_spec[OF assms(1,2)]
  show ?thesis
    by (rule first_mismatch_unique[OF c(2) c(3) c(4) c(1) assms(4) assms(5) assms(6) assms(3)])
qed

lemma commonPrefixLength_sym:
  assumes "0 \<le> bitLength a" "0 \<le> bitLength b"
  shows "commonPrefixLength a b = commonPrefixLength b a"
proof -
  note c = commonPrefixLength_spec[OF assms(2,1)]
  show ?thesis
  proof (rule commonPrefixLength_eqI[OF assms c(1)])
    show "commonPrefixLength b a \<le> min (bitLength a) (bitLength b)"
      using c(2) by (simp add: min.commute)
    show "\<forall>i. 0 \<le> i \<and> i < commonPrefixLength b a \<longrightarrow> bit_at a i = bit_at b i"
      using c(3) by metis
    show "commonPrefixLength b a < min (bitLength a) (bitLength b) \<longrightarrow>
          bit_at a (commonPrefixLength b a) \<noteq> bit_at b (commonPrefixLength b a)"
      using c(4) by (metis min.commute)
  qed
qed

lemma commonPrefixLength_self:
  assumes "0 \<le> bitLength a"
  shows "commonPrefixLength a a = bitLength a"
  by (rule commonPrefixLength_eqI[OF assms assms assms]) simp_all

lemma compare_values:
  assumes "0 \<le> bitLength a" "0 \<le> bitLength b"
  shows "compare a b = Num (- 1) \<or> compare a b = Num 0 \<or> compare a b = Num 1"
proof (cases "commonPrefixLength a b = min (bitLength a) (bitLength b)")
  case True
  have "sgn (bitLength a - bitLength b) \<in> {- 1, 0, 1}"
    by (simp add: sgn_if)
  then show ?thesis unfolding compare_at_bound[OF True] by auto
next
  case False
  show ?thesis
    using mismatch_bits[OF assms False] unfolding compare_at_mismatch[OF False] by auto
qed

lemma compare_antisym:
  assumes "0 \<le> bitLength a" "0 \<le> bitLength b"
  shows "\<exists>r. compare a b = Num r \<and> compare b a = Num (- r)"
proof (cases "commonPrefixLength a b = min (bitLength a) (bitLength b)")
  case True
  then have T': "commonPrefixLength b a = min (bitLength b) (bitLength a)"
    using commonPrefixLength_sym[OF assms] by (simp add: min.commute)
  have "sgn (bitLength b - bitLength a) = - sgn (bitLength a - bitLength b)"
    by (simp add: sgn_if)
  then show ?thesis
    unfolding compare_at_bound[OF True] compare_at_bound[OF T'] by simp
next
  case False
  then have F': "commonPrefixLength b a \<noteq> min (bitLength b) (bitLength a)"
    using commonPrefixLength_sym[OF assms] by (simp add: min.commute)
  show ?thesis
    using mismatch_bits[OF assms False]
    unfolding compare_at_mismatch[OF False] compare_at_mismatch[OF F']
      commonPrefixLength_sym[OF assms(2,1)]
    by auto
qed

text \<open>
  \<open>compare a b\<close> is negative exactly when some position \<open>k\<close> separates the two paths:
  they agree below \<open>k\<close>, and either \<open>a\<close> ends at \<open>k\<close> and \<open>b\<close> goes on, or both go on
  with bit 0 in \<open>a\<close> and bit 1 in \<open>b\<close>.
\<close>

lemma compare_negative_iff:
  assumes "0 \<le> bitLength a" "0 \<le> bitLength b"
  shows "is_negative (compare a b) \<longleftrightarrow>
         (\<exists>k. 0 \<le> k \<and> k \<le> bitLength a \<and> k \<le> bitLength b \<and>
              (\<forall>i. 0 \<le> i \<and> i < k \<longrightarrow> bit_at a i = bit_at b i) \<and>
              ((k = bitLength a \<and> bitLength a < bitLength b) \<or>
               (k < bitLength a \<and> k < bitLength b \<and> bit_at a k = Some 0 \<and> bit_at b k = Some 1)))"
    (is "?L \<longleftrightarrow> (\<exists>k. ?S k)")
proof
  assume L: ?L
  let ?r = "commonPrefixLength a b"
  note c = commonPrefixLength_spec[OF assms]
  show "\<exists>k. ?S k"
  proof (cases "?r = min (bitLength a) (bitLength b)")
    case True
    then have "sgn (bitLength a - bitLength b) < 0"
      using L unfolding compare_at_bound[OF True] by simp
    then have "bitLength a < bitLength b" by (simp add: sgn_if split: if_splits)
    then have "?S ?r" using True c(1) c(3) by simp
    then show ?thesis ..
  next
    case False
    have lt: "?r < bitLength a" "?r < bitLength b" using False c(2) by linarith+
    have "bit_at a ?r = Some 0 \<and> bit_at b ?r = Some 1"
      using L mismatch_bits[OF assms False] unfolding compare_at_mismatch[OF False] by auto
    then have "?S ?r" using lt c(1) c(3) by simp
    then show ?thesis ..
  qed
next
  assume "\<exists>k. ?S k"
  then obtain k where k: "?S k" ..
  have kc: "commonPrefixLength a b = k"
  proof (rule commonPrefixLength_eqI[OF assms])
    show "0 \<le> k" using k by simp
    show "k \<le> min (bitLength a) (bitLength b)" using k by simp
    show "\<forall>i. 0 \<le> i \<and> i < k \<longrightarrow> bit_at a i = bit_at b i" using k by simp
    show "k < min (bitLength a) (bitLength b) \<longrightarrow> bit_at a k \<noteq> bit_at b k" using k by auto
  qed
  from k have "(k = bitLength a \<and> bitLength a < bitLength b) \<or>
               (k < bitLength a \<and> k < bitLength b \<and> bit_at a k = Some 0 \<and> bit_at b k = Some 1)"
    by simp
  then show ?L
  proof
    assume e: "k = bitLength a \<and> bitLength a < bitLength b"
    then have "commonPrefixLength a b = min (bitLength a) (bitLength b)" using kc by simp
    then show ?L using e by (simp add: compare_at_bound)
  next
    assume e: "k < bitLength a \<and> k < bitLength b \<and> bit_at a k = Some 0 \<and> bit_at b k = Some 1"
    then have "k < min (bitLength a) (bitLength b)" by simp
    then have "commonPrefixLength a b \<noteq> min (bitLength a) (bitLength b)" using kc by linarith
    then show ?L using e kc by (simp add: compare_at_mismatch)
  qed
qed

lemma compare_trans:
  assumes "0 \<le> bitLength a" "0 \<le> bitLength b" "0 \<le> bitLength c"
    and "is_negative (compare a b)" "is_negative (compare b c)"
  shows "is_negative (compare a c)"
proof -
  obtain k1 where k1: "0 \<le> k1" "k1 \<le> bitLength a" "k1 \<le> bitLength b"
      and ab: "\<And>i. 0 \<le> i \<Longrightarrow> i < k1 \<Longrightarrow> bit_at a i = bit_at b i"
      and d1: "(k1 = bitLength a \<and> bitLength a < bitLength b) \<or>
               (k1 < bitLength a \<and> k1 < bitLength b \<and> bit_at a k1 = Some 0 \<and> bit_at b k1 = Some 1)"
    using assms(4) unfolding compare_negative_iff[OF assms(1,2)] by blast
  obtain k2 where k2: "0 \<le> k2" "k2 \<le> bitLength b" "k2 \<le> bitLength c"
      and bc: "\<And>i. 0 \<le> i \<Longrightarrow> i < k2 \<Longrightarrow> bit_at b i = bit_at c i"
      and d2: "(k2 = bitLength b \<and> bitLength b < bitLength c) \<or>
               (k2 < bitLength b \<and> k2 < bitLength c \<and> bit_at b k2 = Some 0 \<and> bit_at c k2 = Some 1)"
    using assms(5) unfolding compare_negative_iff[OF assms(2,3)] by blast
  let ?S = "\<lambda>k. 0 \<le> k \<and> k \<le> bitLength a \<and> k \<le> bitLength c \<and>
              (\<forall>i. 0 \<le> i \<and> i < k \<longrightarrow> bit_at a i = bit_at c i) \<and>
              ((k = bitLength a \<and> bitLength a < bitLength c) \<or>
               (k < bitLength a \<and> k < bitLength c \<and> bit_at a k = Some 0 \<and> bit_at c k = Some 1))"
  consider "k1 < k2" | "k2 < k1" | "k1 = k2" by linarith
  then have "\<exists>k. ?S k"
  proof cases
    case 1
    have low: "\<forall>i. 0 \<le> i \<and> i < k1 \<longrightarrow> bit_at a i = bit_at c i"
      using ab bc 1 by (metis less_trans)
    have ck: "bit_at b k1 = bit_at c k1" using bc[OF k1(1) 1] .
    have "?S k1" using d1
    proof
      assume "k1 = bitLength a \<and> bitLength a < bitLength b"
      then show ?thesis using k1 k2 1 low by auto
    next
      assume "k1 < bitLength a \<and> k1 < bitLength b \<and> bit_at a k1 = Some 0 \<and> bit_at b k1 = Some 1"
      then show ?thesis using k1 k2 1 low ck by auto
    qed
    then show ?thesis ..
  next
    case 2
    have low: "\<forall>i. 0 \<le> i \<and> i < k2 \<longrightarrow> bit_at a i = bit_at c i"
      using ab bc 2 by (metis less_trans)
    have ak: "bit_at a k2 = bit_at b k2" using ab[OF k2(1) 2] .
    have "?S k2" using d2
    proof
      assume "k2 = bitLength b \<and> bitLength b < bitLength c"
      then show ?thesis using k1 2 by linarith
    next
      assume "k2 < bitLength b \<and> k2 < bitLength c \<and> bit_at b k2 = Some 0 \<and> bit_at c k2 = Some 1"
      then show ?thesis using k1 k2 2 low ak by auto
    qed
    then show ?thesis ..
  next
    case 3
    have low: "\<forall>i. 0 \<le> i \<and> i < k1 \<longrightarrow> bit_at a i = bit_at c i"
      using ab bc 3 by metis
    have "?S k1" using d1
    proof
      assume e: "k1 = bitLength a \<and> bitLength a < bitLength b"
      then show ?thesis using d2 k1 k2 3 low by auto
    next
      assume e: "k1 < bitLength a \<and> k1 < bitLength b \<and> bit_at a k1 = Some 0 \<and> bit_at b k1 = Some 1"
      then show ?thesis using d2 3 by auto
    qed
    then show ?thesis ..
  qed
  then show ?thesis unfolding compare_negative_iff[OF assms(1,3)] .
qed

subsection \<open>\<open>compare\<close> is a strict total order (claim C2)\<close>

text \<open>
  C2. For paths \<open>a\<close>, \<open>b\<close>, \<open>c\<close> whose lengths are not negative: exactly one of
  \<open>compare a b < 0\<close>, \<open>compare a b == 0\<close>, \<open>compare a b > 0\<close> holds;
  \<open>compare a a\<close> is 0; \<open>compare b a\<close> is the negation of \<open>compare a b\<close>; and
  \<open>compare a b < 0\<close> with \<open>compare b c < 0\<close> gives \<open>compare a c < 0\<close>.
\<close>

theorem compare_strict_total_order:
  assumes "0 \<le> bitLength a" "0 \<le> bitLength b" "0 \<le> bitLength c"
  shows "((is_negative (compare a b) \<and> \<not> is_zero (compare a b) \<and> \<not> is_positive (compare a b)) \<or>
          (\<not> is_negative (compare a b) \<and> is_zero (compare a b) \<and> \<not> is_positive (compare a b)) \<or>
          (\<not> is_negative (compare a b) \<and> \<not> is_zero (compare a b) \<and> is_positive (compare a b))) \<and>
         compare a a = Num 0 \<and>
         (\<exists>r. compare a b = Num r \<and> compare b a = Num (- r)) \<and>
         (is_negative (compare a b) \<and> is_negative (compare b c) \<longrightarrow> is_negative (compare a c))"
proof (intro conjI impI)
  show "(is_negative (compare a b) \<and> \<not> is_zero (compare a b) \<and> \<not> is_positive (compare a b)) \<or>
          (\<not> is_negative (compare a b) \<and> is_zero (compare a b) \<and> \<not> is_positive (compare a b)) \<or>
          (\<not> is_negative (compare a b) \<and> \<not> is_zero (compare a b) \<and> is_positive (compare a b))"
    using compare_values[OF assms(1,2)] by auto
  show "compare a a = Num 0"
    using commonPrefixLength_self[OF assms(1)] by (simp add: compare_at_bound)
  show "\<exists>r. compare a b = Num r \<and> compare b a = Num (- r)"
    by (rule compare_antisym[OF assms(1,2)])
next
  assume "is_negative (compare a b) \<and> is_negative (compare b c)"
  then show "is_negative (compare a c)"
    using compare_trans[OF assms] by blast
qed

theorem compare_strict_total_order_witness:
  "0 \<le> bitLength \<lparr>key = 5 # replicate 31 0, bitLength = 3, hexKey = []\<rparr> \<and>
   0 \<le> bitLength \<lparr>key = 5 # replicate 31 0, bitLength = 4, hexKey = []\<rparr> \<and>
   0 \<le> bitLength \<lparr>key = 7 # replicate 31 0, bitLength = 3, hexKey = []\<rparr> \<and>
   is_negative (compare \<lparr>key = 5 # replicate 31 0, bitLength = 3, hexKey = []\<rparr>
                        \<lparr>key = 5 # replicate 31 0, bitLength = 4, hexKey = []\<rparr>) \<and>
   is_negative (compare \<lparr>key = 5 # replicate 31 0, bitLength = 4, hexKey = []\<rparr>
                        \<lparr>key = 7 # replicate 31 0, bitLength = 3, hexKey = []\<rparr>) \<and>
   is_negative (compare \<lparr>key = 5 # replicate 31 0, bitLength = 3, hexKey = []\<rparr>
                        \<lparr>key = 7 # replicate 31 0, bitLength = 3, hexKey = []\<rparr>)"
proof -
  let ?a = "\<lparr>key = 5 # replicate 31 0, bitLength = 3, hexKey = []\<rparr>"
  let ?b = "\<lparr>key = 5 # replicate 31 0, bitLength = 4, hexKey = []\<rparr>"
  let ?c = "\<lparr>key = 7 # replicate 31 0, bitLength = 3, hexKey = []\<rparr>"
  have a: "0 \<le> bitLength ?a" and b: "0 \<le> bitLength ?b" and c: "0 \<le> bitLength ?c" by simp_all
  have ab: "is_negative (compare ?a ?b)" by code_simp
  have bc: "is_negative (compare ?b ?c)" by code_simp
  show ?thesis
    using compare_strict_total_order[OF a b c] ab bc by simp
qed

section \<open>Truncation\<close>

lemma typed_set_length [simp]: "length (typed_set buf i v) = length buf"
  by (simp add: typed_set_def)

lemma typed_set_nth:
  "j < length buf \<Longrightarrow> typed_set buf i v ! j = (if i = int j then v else buf ! j)"
  by (auto simp: typed_set_def nth_list_update)

lemma copyBytes_spec:
  "length (copyBytes p bytes i n) = length bytes \<and>
   (\<forall>j < length bytes. copyBytes p bytes i n ! j =
      (if i \<le> int j \<and> int j < n
       then (case typed_get (key p) (int j) of Some b \<Rightarrow> b | None \<Rightarrow> 0)
       else bytes ! j))"
proof (induction p bytes i n rule: copyBytes.induct)
  case (1 this bytes i n)
  show ?case
  proof (cases "i < n")
    case True
    let ?v = "case typed_get (key this) i of Some b \<Rightarrow> b | None \<Rightarrow> 0"
    let ?bytes' = "typed_set bytes i ?v"
    have eq: "copyBytes this bytes i n = copyBytes this ?bytes' (i + 1) n"
      using True by (subst copyBytes.simps) simp
    note ih = "1.IH"[OF True]
    show ?thesis
    proof (intro conjI allI impI)
      show "length (copyBytes this bytes i n) = length bytes"
        unfolding eq using ih by simp
    next
      fix j assume j: "j < length bytes"
      then have "copyBytes this ?bytes' (i + 1) n ! j =
        (if i + 1 \<le> int j \<and> int j < n
         then (case typed_get (key this) (int j) of Some b \<Rightarrow> b | None \<Rightarrow> 0)
         else ?bytes' ! j)"
        using ih by simp
      then show "copyBytes this bytes i n ! j =
        (if i \<le> int j \<and> int j < n
         then (case typed_get (key this) (int j) of Some b \<Rightarrow> b | None \<Rightarrow> 0)
         else bytes ! j)"
        unfolding eq using j True by (auto simp: typed_set_nth)
    qed
  next
    case False
    then have eq: "copyBytes this bytes i n = bytes"
      by (subst copyBytes.simps) simp
    show ?thesis unfolding eq using False by auto
  qed
qed

lemma byte_255_minus: "(255 :: byte) - x = NOT x"
proof -
  have "(255 :: byte) = - 1" by simp
  then show ?thesis by (simp add: not_eq_complement)
qed

lemma bit_clear_byte:
  "bit ((old :: byte) AND (255 - 2 ^ k)) j \<longleftrightarrow> bit old j \<and> j \<noteq> k"
  unfolding byte_255_minus by (auto simp: bit_simps dest: bit_imp_le_length)

lemma bit_set_byte:
  "bit ((old :: byte) OR 2 ^ k) j \<longleftrightarrow> bit old j \<or> (j = k \<and> j < 8)"
  by (auto simp: bit_simps)

lemma setBit_length [simp]: "length (setBit buf pos b) = length buf"
  by (simp add: setBit_def Let_def split: option.split)

lemma setBit_negative: "pos < 0 \<Longrightarrow> setBit buf pos b = buf"
proof -
  assume "pos < 0"
  then have "pos div 8 < 0" by simp
  then have "typed_get buf (pos div 8) = None" by (simp add: typed_get_def)
  then show ?thesis by (simp add: setBit_def Let_def)
qed

lemma setBit_key_bit:
  assumes "0 \<le> pos"
  shows "key_bit (setBit buf pos b) i =
         (if i = nat pos \<and> i div 8 < length buf then b \<noteq> Some 0 else key_bit buf i)"
proof -
  define n where "n = nat pos"
  have pos: "pos = int n" using assms by (simp add: n_def)
  have d: "pos div 8 = int (n div 8)" and m: "nat (js_rem pos 8) = n mod 8"
    using assms by (simp_all add: pos zdiv_int js_rem_nonneg nat_mod_distrib)
  show ?thesis
  proof (cases "n div 8 < length buf")
    case False
    then have "typed_get buf (pos div 8) = None" unfolding d by (simp add: typed_get_nat)
    then have "setBit buf pos b = buf" by (simp add: setBit_def Let_def)
    then show ?thesis using False by (auto simp: n_def)
  next
    case True
    then have g: "typed_get buf (int (n div 8)) = Some (buf ! (n div 8))"
      by (simp add: typed_get_nat)
    have sb: "setBit buf pos b =
        buf[n div 8 := (if b = Some 0 then buf ! (n div 8) AND (255 - push_bit (n mod 8) 1)
                        else buf ! (n div 8) OR push_bit (n mod 8) 1)]"
      unfolding setBit_def Let_def m d g using True by (simp add: typed_set_def)
    have split: "i = n \<longleftrightarrow> i div 8 = n div 8 \<and> i mod 8 = n mod 8"
      by (metis div_mult_mod_eq)
    show ?thesis
    proof (cases "i div 8 = n div 8")
      case same: True
      show ?thesis
        unfolding sb key_bit_def n_def[symmetric]
        using True same split by (auto simp: bit_clear_byte bit_set_byte)
    next
      case diff: False
      show ?thesis
        unfolding sb key_bit_def n_def[symmetric]
        using True diff split by auto
    qed
  qed
qed

lemma copyBits_spec:
  "length (copyBits p bytes b n) = length bytes \<and>
   (\<forall>i. key_bit (copyBits p bytes b n) i =
      (if b \<le> int i \<and> int i < n \<and> i div 8 < length bytes
       then bit_at p (int i) \<noteq> Some 0
       else key_bit bytes i))"
proof (induction p bytes b n rule: copyBits.induct)
  case (1 this bytes b n)
  show ?case
  proof (cases "b < n")
    case True
    let ?bytes' = "setBit bytes b (bit_at this b)"
    have eq: "copyBits this bytes b n = copyBits this ?bytes' (b + 1) n"
      using True by (subst copyBits.simps) simp
    note ih = "1.IH"[OF True]
    have step: "key_bit ?bytes' i =
        (if b = int i \<and> i div 8 < length bytes then bit_at this (int i) \<noteq> Some 0
         else key_bit bytes i)" for i
    proof (cases "b < 0")
      case True
      then show ?thesis by (simp add: setBit_negative)
    next
      case False
      then have "0 \<le> b" by simp
      then show ?thesis by (auto simp: setBit_key_bit)
    qed
    show ?thesis
    proof (intro conjI allI)
      show "length (copyBits this bytes b n) = length bytes"
        unfolding eq using ih by simp
    next
      fix i
      have "key_bit (copyBits this ?bytes' (b + 1) n) i =
        (if b + 1 \<le> int i \<and> int i < n \<and> i div 8 < length bytes
         then bit_at this (int i) \<noteq> Some 0
         else key_bit ?bytes' i)"
        using ih by simp
      then show "key_bit (copyBits this bytes b n) i =
        (if b \<le> int i \<and> int i < n \<and> i div 8 < length bytes
         then bit_at this (int i) \<noteq> Some 0
         else key_bit bytes i)"
        unfolding eq step using True by auto
    qed
  next
    case False
    then have eq: "copyBits this bytes b n = bytes"
      by (subst copyBits.simps) simp
    show ?thesis unfolding eq using False by auto
  qed
qed

lemma key_or_zero_bit:
  "bit (case typed_get k (int (i div 8)) of Some b \<Rightarrow> b | None \<Rightarrow> (0 :: byte)) (i mod 8) = key_bit k i"
  by (simp add: typed_get_nat key_bit_def)

lemma bit_at_nonzero_iff:
  "int i < bitLength p \<Longrightarrow> bit_at p (int i) \<noteq> Some 0 \<longleftrightarrow> key_bit (key p) i"
  by (simp add: bit_at_in_range)

lemma whole_bytes_below: "int (i div 8) < n div 8 \<longleftrightarrow> int i < 8 * (n div 8)"
proof -
  have "(x :: int) div 8 < q \<longleftrightarrow> x < 8 * q" for x q by presburger
  then show ?thesis by (simp add: zdiv_int)
qed

lemma truncate_result:
  assumes "- (2 ^ 31) \<le> n" "n < 2 ^ 31" "n \<le> bitLength p"
  shows "\<exists>q. truncate p n = Inr q \<and> bitLength q = n \<and> length (key q) = 32 \<and>
             (\<forall>i. key_bit (key q) i \<longleftrightarrow> int i < n \<and> i < 256 \<and> key_bit (key p) i)"
proof -
  define bytes0 where "bytes0 = replicate (nat (BIT_LENGTH div 8)) (0 :: byte)"
  define bytes1 where "bytes1 = copyBytes p bytes0 0 (n div 8)"
  define bytes2 where "bytes2 = copyBits p bytes1 (8 * (n div 8)) n"
  have sar: "js_sar n 3 = n div 8" using assms(1,2) by (simp add: js_sar_small)
  have l0: "length bytes0 = 32" by (simp add: bytes0_def BIT_LENGTH_def)
  have z0: "bytes0 ! j = 0" if "j < 32" for j using that by (simp add: bytes0_def BIT_LENGTH_def)
  note cb = copyBytes_spec[of p bytes0 0 "n div 8"]
  have l1: "length bytes1 = 32" using cb l0 by (simp add: bytes1_def)
  have k1: "key_bit bytes1 i \<longleftrightarrow> i < 256 \<and> int i < 8 * (n div 8) \<and> key_bit (key p) i" for i
  proof (cases "i div 8 < 32")
    case True
    then have "bytes1 ! (i div 8) =
        (if int (i div 8) < n div 8
         then (case typed_get (key p) (int (i div 8)) of Some b \<Rightarrow> b | None \<Rightarrow> 0)
         else 0)"
      using cb l0 z0 by (simp add: bytes1_def)
    then have "key_bit bytes1 i \<longleftrightarrow> int (i div 8) < n div 8 \<and> key_bit (key p) i"
      using True l1 by (simp add: key_bit_def[of bytes1] key_or_zero_bit)
    moreover have "i < 256" using True by simp
    ultimately show ?thesis by (simp add: whole_bytes_below)
  next
    case False
    then have "\<not> i < 256" by simp
    then show ?thesis using False l1 by (simp add: key_bit_def[of bytes1])
  qed
  note cbits = copyBits_spec[of p bytes1 "8 * (n div 8)" n]
  have l2: "length bytes2 = 32" using cbits l1 by (simp add: bytes2_def)
  have k2: "key_bit bytes2 i \<longleftrightarrow> int i < n \<and> i < 256 \<and> key_bit (key p) i" for i
  proof -
    have lo: "8 * (n div 8) \<le> n" by simp
    have b: "key_bit bytes2 i =
        (if 8 * (n div 8) \<le> int i \<and> int i < n \<and> i div 8 < 32
         then bit_at p (int i) \<noteq> Some 0 else key_bit bytes1 i)"
      using cbits l1 by (simp add: bytes2_def)
    show ?thesis
    proof (cases "8 * (n div 8) \<le> int i \<and> int i < n \<and> i div 8 < 32")
      case True
      then have "int i < bitLength p" using assms(3) by linarith
      then have "bit_at p (int i) \<noteq> Some 0 \<longleftrightarrow> key_bit (key p) i" by (rule bit_at_nonzero_iff)
      moreover have "i < 256" using True by arith
      ultimately show ?thesis using b True by simp
    next
      case False
      have "key_bit bytes2 i = key_bit bytes1 i" unfolding b using False by (simp only: if_False)
      moreover have "i < 256 \<longleftrightarrow> i div 8 < 32" by auto
      ultimately show ?thesis using False lo unfolding k1 by auto
    qed
  qed
  have "truncate p n = new_ProofPath (JSUint8Array bytes2) (Some n)"
    using assms(3) by (simp add: truncate_def Let_def sar bytes0_def bytes1_def bytes2_def)
  also have "\<dots> = Inr \<lparr>key = bytes2, bitLength = n, hexKey = uint8ArrayToHexadecimal bytes2\<rparr>"
    using l2 by (simp add: new_ProofPath_def BIT_LENGTH_def)
  finally show ?thesis using l2 k2 by simp
qed

lemma zero_padded_iff:
  "zero_padded p \<longleftrightarrow> (\<forall>i. bitLength p \<le> int i \<longrightarrow> \<not> key_bit (key p) i)"
proof
  assume z: "zero_padded p"
  show "\<forall>i. bitLength p \<le> int i \<longrightarrow> \<not> key_bit (key p) i"
  proof (intro allI impI)
    fix i assume i: "bitLength p \<le> int i"
    show "\<not> key_bit (key p) i"
    proof (cases "i < 8 * length (key p)")
      case True
      then have "int i < bitLength p \<or> \<not> key_bit (key p) i"
        using z by (simp add: zero_padded_def list_all_iff)
      then show ?thesis using i by simp
    next
      case False
      then have "\<not> i div 8 < length (key p)" by simp
      then show ?thesis by (simp add: key_bit_def)
    qed
  qed
next
  assume "\<forall>i. bitLength p \<le> int i \<longrightarrow> \<not> key_bit (key p) i"
  then show "zero_padded p"
    by (auto simp: zero_padded_def list_all_iff)
qed

subsection \<open>The result of \<open>truncate\<close> (claim C5)\<close>

text \<open>
  C5. For a path within the bounds of the data model and a new length between 0 and
  \<open>bitLength\<close>, \<open>truncate\<close> returns a path of the new length, with a key of 32 bytes,
  whose bits below the new length are those of the given path and whose key is zero from
  the new length on. For a new length above \<open>bitLength\<close> it fails with
  \<open>InvalidOperation\<close>.
\<close>

theorem truncate_spec:
  assumes "valid_path p"
  shows "(0 \<le> n \<and> n \<le> bitLength p \<longrightarrow>
           (\<exists>q. truncate p n = Inr q \<and> bitLength q = n \<and> length (key q) = 32 \<and>
                (\<forall>pos. 0 \<le> pos \<and> pos < n \<longrightarrow> bit_at q pos = bit_at p pos) \<and>
                zero_padded q)) \<and>
         (bitLength p < n \<longrightarrow> truncate p n = Inl InvalidOperation)"
proof (intro conjI impI)
  assume n: "0 \<le> n \<and> n \<le> bitLength p"
  then have "n \<le> 256" using assms by (simp add: valid_path_def)
  then have "- (2 ^ 31) \<le> n" "n < 2 ^ 31" using n by simp_all
  then obtain q where q: "truncate p n = Inr q" "bitLength q = n" "length (key q) = 32"
      and bits: "\<forall>i. key_bit (key q) i \<longleftrightarrow> int i < n \<and> i < 256 \<and> key_bit (key p) i"
    using truncate_result[of n p] n by blast
  have same: "\<forall>pos. 0 \<le> pos \<and> pos < n \<longrightarrow> bit_at q pos = bit_at p pos"
  proof (intro allI impI)
    fix pos assume pos: "0 \<le> pos \<and> pos < n"
    then have "nat pos < 256" "int (nat pos) < n" using \<open>n \<le> 256\<close> by linarith+
    then have "key_bit (key q) (nat pos) = key_bit (key p) (nat pos)" using bits by simp
    then show "bit_at q pos = bit_at p pos"
      using pos n q(2) by (simp add: bit_at_in_range)
  qed
  have "zero_padded q" unfolding zero_padded_iff using bits q(2) by simp
  then show "\<exists>q. truncate p n = Inr q \<and> bitLength q = n \<and> length (key q) = 32 \<and>
                (\<forall>pos. 0 \<le> pos \<and> pos < n \<longrightarrow> bit_at q pos = bit_at p pos) \<and>
                zero_padded q"
    using q same by blast
next
  assume "bitLength p < n"
  then show "truncate p n = Inl InvalidOperation" by (simp add: truncate_def)
qed

theorem truncate_spec_witness:
  "valid_path \<lparr>key = replicate 32 255, bitLength = 256, hexKey = []\<rparr> \<and>
   (\<exists>q. truncate \<lparr>key = replicate 32 255, bitLength = 256, hexKey = []\<rparr> 11 = Inr q \<and>
        bitLength q = 11 \<and> bit_at q 10 = Some 1 \<and> zero_padded q) \<and>
   truncate \<lparr>key = replicate 32 255, bitLength = 256, hexKey = []\<rparr> 257 = Inl InvalidOperation"
proof -
  let ?p = "\<lparr>key = replicate 32 255, bitLength = 256, hexKey = []\<rparr>"
  have v: "valid_path ?p" by (simp add: valid_path_def)
  have b: "bit_at ?p 10 = Some 1" by code_simp
  from truncate_spec[OF v, of 11] obtain q where
    q: "truncate ?p 11 = Inr q" "bitLength q = 11" "zero_padded q"
       "\<forall>pos. 0 \<le> pos \<and> pos < 11 \<longrightarrow> bit_at q pos = bit_at ?p pos"
    by auto
  have "bit_at q 10 = Some 1" using q(4) b by simp
  moreover have "truncate ?p 257 = Inl InvalidOperation"
    using truncate_spec[OF v, of 257] by simp
  ultimately show ?thesis using v q by blast
qed

subsection \<open>A truncation is a prefix (claim C10)\<close>

text \<open>
  C10. For a path \<open>p\<close> within the bounds of the data model and \<open>k\<close> between 0 and
  \<open>bitLength p\<close>, \<open>p.truncate(k)\<close> succeeds and \<open>p.startsWith(p.truncate(k))\<close> is true.
\<close>

theorem startsWith_truncate:
  assumes "valid_path p" "0 \<le> k" "k \<le> bitLength p"
  shows "\<exists>t. truncate p k = Inr t \<and> startsWith p t"
proof -
  have "k \<le> 256" using assms by (simp add: valid_path_def)
  then have "- (2 ^ 31) \<le> k" "k < 2 ^ 31" using assms(2) by simp_all
  then obtain t where t: "truncate p k = Inr t" "bitLength t = k"
      and bits: "\<forall>i. key_bit (key t) i \<longleftrightarrow> int i < k \<and> i < 256 \<and> key_bit (key p) i"
    using truncate_result[of k p] assms(3) by blast
  have p0: "0 \<le> bitLength p" using assms by (simp add: valid_path_def)
  have t0: "0 \<le> bitLength t" using t(2) assms(2) by simp
  have "commonPrefixLength p t = k"
  proof (rule commonPrefixLength_eqI[OF p0 t0 assms(2)])
    show "k \<le> min (bitLength p) (bitLength t)" using t(2) assms(3) by simp
    show "\<forall>i. 0 \<le> i \<and> i < k \<longrightarrow> bit_at p i = bit_at t i"
    proof (intro allI impI)
      fix i assume i: "0 \<le> i \<and> i < k"
      then have "nat i < 256" "int (nat i) < k" using \<open>k \<le> 256\<close> by linarith+
      then have "key_bit (key t) (nat i) = key_bit (key p) (nat i)" using bits by simp
      then show "bit_at p i = bit_at t i"
        using i t(2) assms(3) by (simp add: bit_at_in_range)
    qed
    show "k < min (bitLength p) (bitLength t) \<longrightarrow> bit_at p k \<noteq> bit_at t k"
      using t(2) by simp
  qed
  then have "startsWith p t" using t(2) by (simp add: startsWith_def)
  then show ?thesis using t(1) by blast
qed

theorem startsWith_truncate_witness:
  "valid_path \<lparr>key = 173 # replicate 31 255, bitLength = 256, hexKey = []\<rparr> \<and>
   (\<exists>t. truncate \<lparr>key = 173 # replicate 31 255, bitLength = 256, hexKey = []\<rparr> 13 = Inr t \<and>
        startsWith \<lparr>key = 173 # replicate 31 255, bitLength = 256, hexKey = []\<rparr> t)"
proof -
  let ?p = "\<lparr>key = 173 # replicate 31 255, bitLength = 256, hexKey = []\<rparr>"
  have v: "valid_path ?p" by (simp add: valid_path_def)
  have "0 \<le> (13 :: int)" "13 \<le> bitLength ?p" by simp_all
  from startsWith_truncate[OF v this] v show ?thesis by blast
qed

section \<open>Serialization (claim C6)\<close>

lemma pushKeyBytes_spec:
  "pushKeyBytes p buf pos =
     buf @ map (\<lambda>j. map_option uint (typed_get (key p) j)) [pos .. js_sar (bitLength p + 7) 3 - 1]"
proof (induction p buf pos rule: pushKeyBytes.induct)
  case (1 this buffer pos)
  show ?case
  proof (cases "pos < js_sar (bitLength this + 7) 3")
    case True
    then have "pushKeyBytes this buffer pos =
        pushKeyBytes this (buffer @ [map_option uint (typed_get (key this) pos)]) (pos + 1)"
      by (subst pushKeyBytes.simps) simp
    also have "\<dots> = (buffer @ [map_option uint (typed_get (key this) pos)]) @
        map (\<lambda>j. map_option uint (typed_get (key this) j)) [pos + 1 .. js_sar (bitLength this + 7) 3 - 1]"
      by (rule "1.IH"[OF True])
    also have "\<dots> = buffer @
        map (\<lambda>j. map_option uint (typed_get (key this) j)) [pos .. js_sar (bitLength this + 7) 3 - 1]"
      using True by (simp add: upto_rec1[of pos])
    finally show ?thesis .
  next
    case False
    then have "pushKeyBytes this buffer pos = buffer"
      by (subst pushKeyBytes.simps) simp
    then show ?thesis using False by simp
  qed
qed

lemma upto_as_upt: "0 \<le> c \<Longrightarrow> [0 .. c - 1] = map int [0 ..< nat c]"
proof -
  assume "0 \<le> c"
  then have "c = int (nat c)" by simp
  moreover have "[0 .. int n - 1] = map int [0 ..< n]" for n
    by (induction n) (simp_all add: upto_rec2)
  ultimately show ?thesis by metis
qed

lemma key_prefix_bytes:
  assumes "0 \<le> c" "nat c \<le> length k"
  shows "map (\<lambda>j. map_option uint (typed_get k j)) [0 .. c - 1] = map (\<lambda>b. Some (uint b)) (take (nat c) k)"
proof -
  have "map (\<lambda>j. map_option uint (typed_get k j)) [0 .. c - 1] =
        map (\<lambda>j. map_option uint (typed_get k (int j))) [0 ..< nat c]"
    by (simp add: upto_as_upt[OF assms(1)] comp_def)
  also have "\<dots> = map (\<lambda>j. Some (uint (k ! j))) [0 ..< nat c]"
    using assms(2) by (intro map_cong) (auto simp: typed_get_nat)
  also have "\<dots> = map (\<lambda>b. Some (uint b)) (map (\<lambda>j. k ! j) [0 ..< nat c])"
    by (simp add: comp_def)
  also have "map (\<lambda>j. k ! j) [0 ..< nat c] = take (nat c) k"
    using assms(2) by (intro nth_equalityI) simp_all
  finally show ?thesis .
qed

lemma neg_div_eighth_small: "0 \<le> r \<Longrightarrow> r < 8 \<Longrightarrow> - (- r div 8) = (r + 7) div (8 :: int)"
proof -
  assume "0 \<le> r" "r < 8"
  then have "r \<in> {0, 1, 2, 3, 4, 5, 6, 7}" by auto
  then show ?thesis by auto
qed

lemma neg_div_eighth: "- (- a div 8) = (a + 7) div (8 :: int)"
proof -
  define q r where "q = a div 8" and "r = a mod 8"
  have a: "a = r + q * 8" and r: "0 \<le> r" "r < 8" by (simp_all add: q_def r_def)
  have "- a = - r + (- q) * 8" by (simp add: a)
  then have "- a div 8 = (- r + (- q) * 8) div 8" by simp
  also have "\<dots> = - q + - r div 8" by (rule div_mult_self1) simp
  finally have 1: "- (- a div 8) = q - (- r div 8)" by simp
  have "a + 7 = (r + 7) + q * 8" by (simp add: a)
  then have "(a + 7) div 8 = ((r + 7) + q * 8) div 8" by simp
  also have "\<dots> = q + (r + 7) div 8" by (rule div_mult_self1) simp
  finally show ?thesis using 1 neg_div_eighth_small[OF r] by simp
qed

lemma ceiling_eighth: "\<lceil>real_of_int a / 8\<rceil> = (a + 7) div 8"
proof -
  have "\<lceil>real_of_int a / real_of_int 8\<rceil> = - (- a div 8)"
    by (rule ceiling_divide_eq_div)
  then show ?thesis by (simp add: neg_div_eighth)
qed

text \<open>
  C6. For a path within the bounds of the data model, \<open>serialize\<close> leaves the bytes
  already in the buffer unchanged and appends: the length prefix, which is the single byte
  \<open>bitLength\<close> when \<open>bitLength < 128\<close> and otherwise the two bytes
  \<open>128 + bitLength mod 128\<close> and \<open>bitLength >> 7\<close>; then the first
  \<open>ceil (bitLength / 8)\<close> bytes of the key.
\<close>

theorem serialize_spec:
  assumes "valid_path p"
  shows "serialize p buffer =
           buffer @
           (if bitLength p < 128 then [Some (bitLength p)]
            else [Some (128 + bitLength p mod 128), Some (bitLength p div 2 ^ 7)]) @
           map (\<lambda>b. Some (uint b)) (take (nat \<lceil>real_of_int (bitLength p) / 8\<rceil>) (key p))"
proof -
  have b: "0 \<le> bitLength p" "bitLength p \<le> 256" and l: "length (key p) = 32"
    using assms by (simp_all add: valid_path_def)
  define c where "c = (bitLength p + 7) div 8"
  have c: "0 \<le> c" "nat c \<le> length (key p)" using b l unfolding c_def by linarith+
  have sar3: "js_sar (bitLength p + 7) 3 = c"
    using b by (simp add: js_sar_small c_def)
  have sar7: "js_sar (bitLength p) 7 = bitLength p div 2 ^ 7"
    using b by (simp add: js_sar_small)
  have rem: "js_rem (bitLength p) 128 = bitLength p mod 128"
    using b by (simp add: js_rem_nonneg)
  have ceil: "\<lceil>real_of_int (bitLength p) / 8\<rceil> = c"
    unfolding c_def by (rule ceiling_eighth)
  show ?thesis
    unfolding serialize_def Let_def pushKeyBytes_spec sar3 sar7 rem ceil
      key_prefix_bytes[OF c]
    by simp
qed

theorem serialize_spec_witness:
  "valid_path \<lparr>key = 85 # replicate 31 0, bitLength = 7, hexKey = []\<rparr> \<and>
   serialize \<lparr>key = 85 # replicate 31 0, bitLength = 7, hexKey = []\<rparr> [Some 1] =
     [Some 1, Some 7, Some 85] \<and>
   valid_path \<lparr>key = replicate 32 3, bitLength = 256, hexKey = []\<rparr> \<and>
   serialize \<lparr>key = replicate 32 3, bitLength = 256, hexKey = []\<rparr> [] =
     Some 128 # Some 2 # replicate 32 (Some 3)"
proof -
  let ?p = "\<lparr>key = 85 # replicate 31 0, bitLength = 7, hexKey = []\<rparr>"
  let ?q = "\<lparr>key = replicate 32 3, bitLength = 256, hexKey = []\<rparr>"
  have v: "valid_path ?p" and w: "valid_path ?q" by (simp_all add: valid_path_def)
  have c7: "\<lceil>7 / 8 :: real\<rceil> = 1" and c256: "\<lceil>256 / 8 :: real\<rceil> = 32"
    by (simp_all add: ceiling_eq_iff)
  show ?thesis
    using serialize_spec[OF v, of "[Some 1]"] serialize_spec[OF w, of "[]"] v w
    by (simp add: c7 c256)
qed

section \<open>Construction\<close>

lemma ZEROS_eq: "ZEROS = replicate 256 CHR ''0''"
  unfolding ZEROS_def by code_simp

lemma padWithZeros_short:
  assumes "length s \<le> 256"
  shows "padWithZeros s BIT_LENGTH = s @ replicate (256 - length s) CHR ''0''"
proof -
  have "nat (256 - int (length s)) = 256 - length s" using assms by linarith
  then show ?thesis by (simp add: padWithZeros_def BIT_LENGTH_def ZEROS_eq)
qed

lemma chop8_length: "length (chop8 t) = (length t + 7) div 8"
proof (induction t rule: chop8.induct)
  case 1
  then show ?case by simp
next
  case (2 x xs)
  show ?case
  proof (cases "length xs < 8")
    case True
    then show ?thesis by simp
  next
    case False
    then have "length (chop8 (drop 8 (x # xs))) = (length xs - 7 + 7) div 8"
      using 2 by simp
    then show ?thesis using False by simp
  qed
qed

lemma chop8_nth: "j < length (chop8 t) \<Longrightarrow> chop8 t ! j = take 8 (drop (8 * j) t)"
proof (induction t arbitrary: j rule: chop8.induct)
  case 1
  then show ?case by simp
next
  case (2 x xs)
  show ?case
  proof (cases j)
    case 0
    then show ?thesis by simp
  next
    case (Suc j')
    then have "j' < length (chop8 (drop 8 (x # xs)))" using "2.prems" by simp
    then have "chop8 (drop 8 (x # xs)) ! j' = take 8 (drop (8 * j') (drop 8 (x # xs)))"
      by (rule "2.IH")
    moreover have "8 * j = 8 * j' + 8" using Suc by simp
    then have "drop (8 * j) (x # xs) = drop (8 * j') (drop 8 (x # xs))"
      by (simp only: drop_drop)
    moreover have "chop8 (x # xs) ! j = chop8 (drop 8 (x # xs)) ! j'"
      using Suc by (simp only: chop8.simps nth_Cons_Suc)
    ultimately show ?thesis by (simp only:)
  qed
qed

lemma bit_bitsToByte: "bit (bitsToByte cs) m \<longleftrightarrow> m < 8 \<and> m < length cs \<and> cs ! m = CHR ''1''"
  by (auto simp: bitsToByte_def bit_horner_sum_bit_word_iff)

lemma chunk_nth_aux:
  "m < 8 \<Longrightarrow>
   (m < length (take 8 (drop (8 * d) t)) \<longleftrightarrow> 8 * d + m < length t) \<and>
   (8 * d + m < length t \<longrightarrow> take 8 (drop (8 * d) t) ! m = t ! (8 * d + m))"
  by auto

lemma chunk_nth:
  shows "i mod 8 < length (take 8 (drop (8 * (i div 8)) t)) \<longleftrightarrow> i < length t"
    and "i < length t \<Longrightarrow> take 8 (drop (8 * (i div 8)) t) ! (i mod 8) = t ! i"
  using chunk_nth_aux[of "i mod 8" "i div 8" t] by simp_all

lemma key_bit_chop8:
  "key_bit (map bitsToByte (chop8 t)) i \<longleftrightarrow> i < length t \<and> t ! i = CHR ''1''"
proof (cases "i div 8 < length (chop8 t)")
  case True
  have "key_bit (map bitsToByte (chop8 t)) i \<longleftrightarrow>
        bit (bitsToByte (take 8 (drop (8 * (i div 8)) t))) (i mod 8)"
    using True by (simp add: key_bit_def chop8_nth)
  also have "\<dots> \<longleftrightarrow> i mod 8 < length (take 8 (drop (8 * (i div 8)) t)) \<and>
        take 8 (drop (8 * (i div 8)) t) ! (i mod 8) = CHR ''1''"
    unfolding bit_bitsToByte by simp
  also have "\<dots> \<longleftrightarrow> i < length t \<and> t ! i = CHR ''1''"
    using chunk_nth[of i t] by metis
  finally show ?thesis .
next
  case False
  then have "\<not> i < length t" by (simp add: chop8_length) 
  then show ?thesis using False by (simp add: key_bit_def)
qed

lemma list_all_replicate: "P c \<Longrightarrow> list_all P (replicate n c)"
  by (induction n) simp_all

lemma new_ProofPath_string:
  assumes "list_all (\<lambda>c. c = CHR ''0'' \<or> c = CHR ''1'') s" "length s \<le> 256"
  shows "\<exists>q. new_ProofPath (JSString s) len = Inr q \<and> bitLength q = int (length s) \<and>
             length (key q) = 32 \<and>
             hexKey q = uint8ArrayToHexadecimal (key q) \<and>
             (\<forall>i. key_bit (key q) i \<longleftrightarrow> i < length s \<and> s ! i = CHR ''1'')"
proof -
  define t where "t = padWithZeros s BIT_LENGTH"
  have t: "t = s @ replicate (256 - length s) CHR ''0''"
    unfolding t_def by (rule padWithZeros_short[OF assms(2)])
  have lt: "length t = 256" using assms(2) by (simp add: t)
  have bin: "list_all (\<lambda>c. c = CHR ''0'' \<or> c = CHR ''1'') t"
    unfolding t list_all_append using assms(1) by (simp add: list_all_replicate)
  define q where "q = \<lparr>key = map bitsToByte (chop8 t), bitLength = int (length s),
                       hexKey = uint8ArrayToHexadecimal (map bitsToByte (chop8 t))\<rparr>"
  have c: "new_ProofPath (JSString s) len = Inr q"
    using bin by (simp add: new_ProofPath_def binaryStringToUint8Array_def t_def[symmetric] q_def)
  have lk: "length (key q) = 32" by (simp add: q_def chop8_length lt)
  have bits: "key_bit (key q) i \<longleftrightarrow> i < length s \<and> s ! i = CHR ''1''" for i
  proof -
    have "key_bit (key q) i \<longleftrightarrow> i < 256 \<and> t ! i = CHR ''1''"
      by (simp add: q_def key_bit_chop8 lt)
    also have "\<dots> \<longleftrightarrow> i < length s \<and> s ! i = CHR ''1''"
    proof (cases "i < length s")
      case True
      then show ?thesis using assms(2) by (simp add: t nth_append)
    next
      case False
      then show ?thesis by (simp add: t nth_append)
    qed
    finally show ?thesis .
  qed
  have "bitLength q = int (length s)" "hexKey q = uint8ArrayToHexadecimal (key q)"
    by (simp_all add: q_def)
  then show ?thesis using c lk bits by blast
qed

subsection \<open>Errors of the constructor (claim C7)\<close>

text \<open>
  C7, as the code has it. The constructor fails with \<open>InvalidInput\<close> when its input is
  neither a string nor a buffer of exactly 32 bytes. It does not check the explicit length:
  a 32-byte buffer is accepted with any length, which becomes \<open>bitLength\<close> as given
  (256 when none is given). A string of at most 256 characters \<open>'0'\<close>/\<open>'1'\<close> is
  accepted and its length becomes \<open>bitLength\<close>.
\<close>

theorem constructor_errors:
  "new_ProofPath JSOther len = Inl InvalidInput \<and>
   (length b \<noteq> 32 \<longrightarrow> new_ProofPath (JSUint8Array b) len = Inl InvalidInput) \<and>
   (length b = 32 \<longrightarrow>
      new_ProofPath (JSUint8Array b) len =
        Inr \<lparr>key = b, bitLength = (case len of None \<Rightarrow> 256 | Some n \<Rightarrow> n),
             hexKey = uint8ArrayToHexadecimal b\<rparr>) \<and>
   (list_all (\<lambda>c. c = CHR ''0'' \<or> c = CHR ''1'') s \<and> length s \<le> 256 \<longrightarrow>
      (\<exists>q. new_ProofPath (JSString s) len = Inr q \<and> bitLength q = int (length s) \<and>
           length (key q) = 32))"
proof (intro conjI impI)
  show "new_ProofPath JSOther len = Inl InvalidInput"
    by (simp add: new_ProofPath_def)
  show "new_ProofPath (JSUint8Array b) len = Inl InvalidInput" if "length b \<noteq> 32"
    using that by (simp add: new_ProofPath_def BIT_LENGTH_def)
  show "new_ProofPath (JSUint8Array b) len =
        Inr \<lparr>key = b, bitLength = (case len of None \<Rightarrow> 256 | Some n \<Rightarrow> n),
             hexKey = uint8ArrayToHexadecimal b\<rparr>" if "length b = 32"
    using that by (cases len) (simp_all add: new_ProofPath_def BIT_LENGTH_def)
  show "\<exists>q. new_ProofPath (JSString s) len = Inr q \<and> bitLength q = int (length s) \<and>
           length (key q) = 32"
    if "list_all (\<lambda>c. c = CHR ''0'' \<or> c = CHR ''1'') s \<and> length s \<le> 256"
    using new_ProofPath_string[of s len] that by blast
qed

theorem constructor_errors_witness:
  "new_ProofPath (JSUint8Array (replicate 31 7)) None = Inl InvalidInput \<and>
   new_ProofPath (JSUint8Array (replicate 32 7)) (Some 1000) =
     Inr \<lparr>key = replicate 32 7, bitLength = 1000,
          hexKey = uint8ArrayToHexadecimal (replicate 32 7)\<rparr> \<and>
   (\<exists>q. new_ProofPath (JSString ''110'') None = Inr q \<and> bitLength q = 3 \<and> length (key q) = 32)"
proof -
  have s: "list_all (\<lambda>c. c = CHR ''0'' \<or> c = CHR ''1'') ''110'' \<and> length ''110'' \<le> 256"
    by simp
  show ?thesis
    using constructor_errors[of None "replicate 31 7" "''110''"]
      constructor_errors[of "Some 1000" "replicate 32 7" "''110''"] s
    by simp
qed

text \<open>
  C7 as stated fails: a 32-byte buffer with the explicit length 300, or with the explicit
  length \<open>-1\<close>, is accepted.
\<close>

theorem constructor_length_not_checked:
  "new_ProofPath (JSUint8Array (replicate 32 0)) (Some 300) =
     Inr \<lparr>key = replicate 32 0, bitLength = 300, hexKey = replicate 64 CHR ''0''\<rparr> \<and>
   new_ProofPath (JSUint8Array (replicate 32 0)) (Some (- 1)) =
     Inr \<lparr>key = replicate 32 0, bitLength = - 1, hexKey = replicate 64 CHR ''0''\<rparr>"
  by code_simp

subsection \<open>Zero padding beyond the length (claim C1)\<close>

text \<open>
  C1, as the code has it. Every bit of the key at an index at or above \<open>bitLength\<close> is
  zero in a path built from a string of at most 256 characters \<open>'0'\<close>/\<open>'1'\<close>, in a
  path built from a 32-byte buffer with the default length, in the result of \<open>truncate\<close>
  for a requested length in the signed 32-bit range, and in the result of
  \<open>commonPrefix\<close> of two paths with lengths that are not negative (the first below
  \<open>2 ^ 31\<close>). A path built from a 32-byte buffer with an explicit length keeps the
  buffer as it is: its key is zero beyond the length exactly when the buffer is.
\<close>

theorem zero_padding_established:
  "(list_all (\<lambda>c. c = CHR ''0'' \<or> c = CHR ''1'') s \<and> length s \<le> 256 \<longrightarrow>
      (\<exists>q. new_ProofPath (JSString s) len = Inr q \<and> zero_padded q)) \<and>
   (length b = 32 \<longrightarrow>
      (\<exists>q. new_ProofPath (JSUint8Array b) None = Inr q \<and> zero_padded q)) \<and>
   (length b = 32 \<longrightarrow>
      (\<exists>q. new_ProofPath (JSUint8Array b) (Some n) = Inr q \<and> key q = b \<and> bitLength q = n \<and>
           (zero_padded q \<longleftrightarrow> (\<forall>i. n \<le> int i \<longrightarrow> \<not> key_bit b i)))) \<and>
   (- (2 ^ 31) \<le> m \<and> m < 2 ^ 31 \<and> m \<le> bitLength p \<longrightarrow>
      (\<exists>q. truncate p m = Inr q \<and> zero_padded q)) \<and>
   (0 \<le> bitLength p \<and> bitLength p < 2 ^ 31 \<and> 0 \<le> bitLength p' \<longrightarrow>
      (\<exists>q. commonPrefix p p' = Inr q \<and> zero_padded q))"
proof (intro conjI impI)
  assume "list_all (\<lambda>c. c = CHR ''0'' \<or> c = CHR ''1'') s \<and> length s \<le> 256"
  then obtain q where q: "new_ProofPath (JSString s) len = Inr q" "bitLength q = int (length s)"
      "\<forall>i. key_bit (key q) i \<longleftrightarrow> i < length s \<and> s ! i = CHR ''1''"
    using new_ProofPath_string[of s len] by blast
  have "zero_padded q" unfolding zero_padded_iff using q(2,3) by simp
  then show "\<exists>q. new_ProofPath (JSString s) len = Inr q \<and> zero_padded q" using q(1) by blast
next
  assume b: "length b = 32"
  let ?q = "\<lparr>key = b, bitLength = 256, hexKey = uint8ArrayToHexadecimal b\<rparr>"
  have "new_ProofPath (JSUint8Array b) None = Inr ?q"
    using b by (simp add: new_ProofPath_def BIT_LENGTH_def)
  moreover have "\<not> key_bit b i" if "256 \<le> int i" for i
  proof -
    have "\<not> i div 8 < length b" using that b by simp
    then show ?thesis by (simp add: key_bit_def)
  qed
  then have "zero_padded ?q"
    unfolding zero_padded_iff by simp
  ultimately show "\<exists>q. new_ProofPath (JSUint8Array b) None = Inr q \<and> zero_padded q" by blast
next
  assume b: "length b = 32"
  let ?q = "\<lparr>key = b, bitLength = n, hexKey = uint8ArrayToHexadecimal b\<rparr>"
  have "new_ProofPath (JSUint8Array b) (Some n) = Inr ?q"
    using b by (simp add: new_ProofPath_def BIT_LENGTH_def)
  moreover have "zero_padded ?q \<longleftrightarrow> (\<forall>i. n \<le> int i \<longrightarrow> \<not> key_bit b i)"
    unfolding zero_padded_iff by simp
  ultimately show "\<exists>q. new_ProofPath (JSUint8Array b) (Some n) = Inr q \<and> key q = b \<and>
      bitLength q = n \<and> (zero_padded q \<longleftrightarrow> (\<forall>i. n \<le> int i \<longrightarrow> \<not> key_bit b i))"
    by simp
next
  assume m: "- (2 ^ 31) \<le> m \<and> m < 2 ^ 31 \<and> m \<le> bitLength p"
  then obtain q where q: "truncate p m = Inr q" "bitLength q = m"
      "\<forall>i. key_bit (key q) i \<longleftrightarrow> int i < m \<and> i < 256 \<and> key_bit (key p) i"
    using truncate_result[of m p] by blast
  have "zero_padded q" unfolding zero_padded_iff using q(2,3) by simp
  then show "\<exists>q. truncate p m = Inr q \<and> zero_padded q" using q(1) by blast
next
  assume a: "0 \<le> bitLength p \<and> bitLength p < 2 ^ 31 \<and> 0 \<le> bitLength p'"
  then have c: "0 \<le> commonPrefixLength p p'" "commonPrefixLength p p' \<le> bitLength p"
    using commonPrefixLength_spec(1,2)[of p p'] by simp_all
  then have "- (2 ^ 31) \<le> commonPrefixLength p p'" "commonPrefixLength p p' < 2 ^ 31"
    using a by simp_all
  then obtain q where q: "truncate p (commonPrefixLength p p') = Inr q"
      "bitLength q = commonPrefixLength p p'"
      "\<forall>i. key_bit (key q) i \<longleftrightarrow> int i < commonPrefixLength p p' \<and> i < 256 \<and> key_bit (key p) i"
    using truncate_result[of "commonPrefixLength p p'" p] c(2) by blast
  have "zero_padded q" unfolding zero_padded_iff using q(2,3) by simp
  then show "\<exists>q. commonPrefix p p' = Inr q \<and> zero_padded q"
    using q(1) by (simp add: commonPrefix_def)
qed

theorem zero_padding_established_witness:
  "(\<exists>q. new_ProofPath (JSString ''110'') None = Inr q \<and> zero_padded q) \<and>
   (\<exists>q. new_ProofPath (JSUint8Array (replicate 32 255)) None = Inr q \<and> zero_padded q) \<and>
   (\<exists>q. truncate \<lparr>key = replicate 32 255, bitLength = 256, hexKey = []\<rparr> 11 = Inr q \<and>
        zero_padded q) \<and>
   (\<exists>q. commonPrefix \<lparr>key = replicate 32 255, bitLength = 256, hexKey = []\<rparr>
           \<lparr>key = replicate 32 15, bitLength = 200, hexKey = []\<rparr> = Inr q \<and> zero_padded q)"
  using zero_padding_established[where s = "''110''" and len = None and b = "replicate 32 255"
      and n = 3 and m = 11 and p = "\<lparr>key = replicate 32 255, bitLength = 256, hexKey = []\<rparr>"
      and p' = "\<lparr>key = replicate 32 15, bitLength = 200, hexKey = []\<rparr>"]
  by simp

text \<open>
  C1 as stated fails: the buffer of 32 bytes \<open>0xFF\<close> with the explicit length 3 gives a
  path whose key has bit 3 set.
\<close>

theorem explicit_length_keeps_garbage:
  "new_ProofPath (JSUint8Array (replicate 32 255)) (Some 3) =
     Inr \<lparr>key = replicate 32 255, bitLength = 3, hexKey = replicate 64 CHR ''f''\<rparr> \<and>
   key_bit (replicate 32 255) 3 \<and>
   \<not> zero_padded \<lparr>key = replicate 32 255, bitLength = 3, hexKey = replicate 64 CHR ''f''\<rparr>"
  by code_simp

section \<open>The interchange text form (claim C9)\<close>










end
